theory Spec2Isabelle
  imports Main "HOL-Library.AList"
begin

section \<open>The rule execution engine of monorepolint (packages/core/src/check.ts)\<close>

text \<open>
  The embedding follows \<^verbatim>\<open>check.ts\<close> function by function. The asynchronous functions
  are modelled as state transformers on a record \<open>world\<close>: every \<^verbatim>\<open>await\<close> of the source
  sits in a sequential loop, so a run is one sequence of effects. An exception (a rejected
  promise) is the \<open>Inl\<close> branch of the result, returned together with the state reached
  when it was raised.

  The effects on the collaborators (the validators, the glob matcher, the rules' check
  operations, \<^verbatim>\<open>finish()\<close>, the console and the tables) are recorded in an event trace,
  the instrumented view of a run.
\<close>

subsection \<open>Paths\<close>

text \<open>
  A path is the list of components of an absolute, normalised path (\<^verbatim>\<open>/ws/pkgX\<close> is
  \<open>[''ws'', ''pkgX'']\<close>, the file system root is \<open>[]\<close>). On such a path Node's
  \<^verbatim>\<open>path.resolve\<close> is the identity and \<^verbatim>\<open>path.dirname\<close> drops the last component
  (\<^verbatim>\<open>dirname("/")\<close> is \<^verbatim>\<open>"/"\<close>).
\<close>

type_synonym path = "string list"

definition pathResolve :: "path \<Rightarrow> path" where
  "pathResolve p = p"

definition pathDirname :: "path \<Rightarrow> path" where
  "pathDirname p = butlast p"

subsection \<open>Data model\<close>

datatype error =
    NoWorkspace path        \<comment> \<open>\<^verbatim>\<open>Unable to find a workspace from ${cwd}\<close>\<close>
  | OptionsInvalid string   \<comment> \<open>\<^verbatim>\<open>optionsRuntype.check\<close> threw, for the rule with this id\<close>
  | CheckThrew string       \<comment> \<open>the check operation of the rule with this id rejected\<close>
  | RangeError              \<comment> \<open>BigInt division by zero\<close>

text \<open>What a rule's check operation did once its promise is settled.\<close>

datatype outcome = Pass | Fail | Throw

text \<open>
  Modelled from the spec: the classes \<^verbatim>\<open>Context\<close> and \<^verbatim>\<open>WorkspaceContext\<close> are not part
  of the source file. A Scope Context has a directory, a mutable \<open>failed\<close> flag local to
  the scope, and a reference to its owning Workspace Context (\<open>None\<close> for the Workspace
  Context itself). Context objects live in a store; a reference is an index into it.
\<close>

record ctx =
  packageDir :: path
  failed :: bool
  parent :: "nat option"

text \<open>
  A ResolvedRule. \<open>includeWorkspaceRoot\<close> is optional in the source and tested for
  truthiness; \<open>printStats\<close> is an optional function, of which only the identity matters
  (a number stands for the function reference). \<open>rule_check\<close> is the rule's \<^verbatim>\<open>check\<close>,
  \<open>rule_id\<close> its \<^verbatim>\<open>id\<close>; \<open>optionsRuntype\<close> is \<^verbatim>\<open>optionsRuntype.check\<close>, which throws
  exactly when the predicate is false. What a check operation does is a function of the
  scope it is given, of the options and of the id: it resolves without marking the
  scope, resolves after marking the scope failed, or rejects.
\<close>

record rule =
  rule_id :: string
  name :: "string option"
  options :: string
  optionsRuntype :: "string \<Rightarrow> bool"
  includePackages :: "string list option"
  excludePackages :: "string list option"
  includeWorkspaceRoot :: "bool option"
  rule_check :: "ctx \<Rightarrow> string \<Rightarrow> string \<Rightarrow> outcome"
  printStats :: "nat option"

record resolvedConfig =
  rules :: "rule list"
  verbose :: bool

text \<open>One entry of \<^verbatim>\<open>stats.perRule\<close>: \<^verbatim>\<open>{ name, totalTime, executions }\<close>.\<close>

record bucket =
  stat_name :: string
  totalTime :: int
  executions :: int

type_synonym row = "int \<times> string \<times> int \<times> int"

datatype event =
    Validate string                 \<comment> \<open>\<^verbatim>\<open>optionsRuntype.check(options)\<close> of the rule with this id\<close>
  | GlobEval string "string list"   \<comment> \<open>\<^verbatim>\<open>matchesAnyGlob(name, patterns)\<close>\<close>
  | ConsoleLog string
  | CheckStart nat string           \<comment> \<open>\<^verbatim>\<open>ruleConfig.check\<close> called on this context, rule id\<close>
  | CheckEnd nat string             \<comment> \<open>the awaited promise of that call resolved\<close>
  | Finish nat                      \<comment> \<open>\<^verbatim>\<open>context.finish()\<close>\<close>
  | CostPerRuleTable "row list"
  | GlobPrintStats
  | IncludesExcludesCosts int int
  | RandomStats int int int int
  | RulePrintStats nat              \<comment> \<open>\<^verbatim>\<open>resolvedRule.printStats()\<close>, by function reference\<close>

text \<open>
  The collaborators the source imports. \<open>hrtime n\<close> is the value of the \<open>n\<close>-th reading
  of \<^verbatim>\<open>process.hrtime.bigint()\<close>; \<open>packageName\<close> is the name a context at that directory
  reports; \<open>globHasPrintStats\<close> says whether \<^verbatim>\<open>matchesAnyGlob.printStats\<close> is defined.
\<close>

record env =
  hrtime :: "nat \<Rightarrow> int"
  matchesAnyGlob :: "string \<Rightarrow> string list \<Rightarrow> bool"
  globHasPrintStats :: bool
  findWorkspaceDir :: "path \<Rightarrow> path option"
  getWorkspacePackageDirs :: "path \<Rightarrow> path list"
  packageName :: "path \<Rightarrow> string"

text \<open>
  The state: the number of clock readings made so far, the store of context objects
  (index 0 is the Workspace Context of the run), the locals \<^verbatim>\<open>stats.perRule\<close> (a
  \<^verbatim>\<open>Map\<close>, which keeps insertion order) and \<^verbatim>\<open>packagesChecked\<close>, the two module-level
  counters, and the trace.
\<close>

record world =
  ticks :: nat
  contexts :: "ctx list"
  perRule :: "(string \<times> bucket) list"
  packagesChecked :: int
  includesCost :: int
  excludesCost :: int
  trace :: "event list"

type_synonym 'a result = "(error + 'a) \<times> world"

subsection \<open>Collaborator calls\<close>

definition hrtime_bigint :: "env \<Rightarrow> world \<Rightarrow> int \<times> world" where
  "hrtime_bigint e w = (hrtime e (ticks w), w\<lparr>ticks := Suc (ticks w)\<rparr>)"

definition emit :: "event \<Rightarrow> world \<Rightarrow> world" where
  "emit ev w = w\<lparr>trace := trace w @ [ev]\<rparr>"

definition matchesAnyGlob_call :: "env \<Rightarrow> string \<Rightarrow> string list \<Rightarrow> world \<Rightarrow> bool \<times> world" where
  "matchesAnyGlob_call e n pats w = (matchesAnyGlob e n pats, emit (GlobEval n pats) w)"

text \<open>
  Modelled from the spec: the methods of the absent \<^verbatim>\<open>Context\<close> classes.
  \<open>getWorkspaceContext\<close> is the owning Workspace Context (the context itself when it is
  one); \<open>getName\<close> is the scope's name; \<open>createChildContext\<close> allocates a child Scope
  Context of the Workspace Context; a failing rule sets the scope's \<open>failed\<close> flag;
  \<open>finish\<close> flushes the scope's result into the owning Workspace Context, whose flag only
  ever goes from false to true.
\<close>

definition getWorkspaceContext :: "world \<Rightarrow> nat \<Rightarrow> nat" where
  "getWorkspaceContext w c = (case parent (contexts w ! c) of None \<Rightarrow> c | Some p \<Rightarrow> p)"

definition getName :: "env \<Rightarrow> world \<Rightarrow> nat \<Rightarrow> string" where
  "getName e w c = packageName e (packageDir (contexts w ! c))"

definition createChildContext :: "path \<Rightarrow> world \<Rightarrow> nat \<times> world" where
  "createChildContext p w =
     (length (contexts w),
      w\<lparr>contexts := contexts w @ [\<lparr>packageDir = p, failed = False, parent = Some 0\<rparr>]\<rparr>)"

definition setFailed :: "nat \<Rightarrow> world \<Rightarrow> world" where
  "setFailed c w = w\<lparr>contexts := (contexts w)[c := (contexts w ! c)\<lparr>failed := True\<rparr>]\<rparr>"

definition finish :: "nat \<Rightarrow> world \<Rightarrow> world" where
  "finish c w =
     (let ws = getWorkspaceContext w c;
          f = (failed (contexts w ! ws) \<or> failed (contexts w ! c))
      in emit (Finish c) (w\<lparr>contexts := (contexts w)[ws := (contexts w ! ws)\<lparr>failed := f\<rparr>]\<rparr>))"

subsection \<open>shouldSkipPackage\<close>

definition falsy :: "bool option \<Rightarrow> bool" where
  "falsy b = (case b of None \<Rightarrow> True | Some v \<Rightarrow> \<not> v)"

definition shouldSkipPackage :: "env \<Rightarrow> nat \<Rightarrow> rule \<Rightarrow> world \<Rightarrow> bool \<times> world" where
  "shouldSkipPackage e context ruleConfig w =
     (if falsy (includeWorkspaceRoot ruleConfig) \<and> getWorkspaceContext w context = context
      then (True, w)
      else
        let (t1, w1) = hrtime_bigint e w;
            w2 = w1\<lparr>excludesCost := excludesCost w1 - t1\<rparr>;
            (exclude, w3) =
              (case excludePackages ruleConfig of
                 Some pats \<Rightarrow> matchesAnyGlob_call e (getName e w2 context) pats w2
               | None \<Rightarrow> (False, w2));
            (t2, w4) = hrtime_bigint e w3;
            w5 = w4\<lparr>excludesCost := excludesCost w4 + t2\<rparr>
        in if exclude then (True, w5)
           else
             let (t3, w6) = hrtime_bigint e w5;
                 w7 = w6\<lparr>includesCost := includesCost w6 - t3\<rparr>;
                 (include, w8) =
                   (case includePackages ruleConfig of
                      None \<Rightarrow> (True, w7)
                    | Some pats \<Rightarrow> matchesAnyGlob_call e (getName e w7 context) pats w7);
                 (t4, w9) = hrtime_bigint e w8;
                 w10 = w9\<lparr>includesCost := includesCost w9 + t4\<rparr>
             in if \<not> include then (True, w10) else (False, w10))"

subsection \<open>checkPackage\<close>

definition ruleName :: "rule \<Rightarrow> string" where
  "ruleName ruleConfig = (case name ruleConfig of Some n \<Rightarrow> n | None \<Rightarrow> ''unknown'')"

text \<open>
  \<^verbatim>\<open>data\<close> is an object held by the map under the key \<open>ruleName\<close>; nothing else can
  reach the map while a rule runs, so a mutation of the object is a write of the local
  record to that key.
\<close>

definition putData :: "string \<Rightarrow> bucket \<Rightarrow> world \<Rightarrow> world" where
  "putData k d w = w\<lparr>perRule := AList.update k d (perRule w)\<rparr>"

text \<open>\<^verbatim>\<open>stats.perRule.get(ruleName) ?? { totalTime: 0, executions: 0, name: ruleName }\<close>.\<close>

definition bucketOf :: "(string \<times> bucket) list \<Rightarrow> string \<Rightarrow> bucket" where
  "bucketOf m k = (case map_of m k of
                     Some d \<Rightarrow> d
                   | None \<Rightarrow> \<lparr>stat_name = k, totalTime = 0, executions = 0\<rparr>)"

text \<open>Lines 160 to 168: find or create the bucket, count the execution, start the timer.\<close>

definition beginStats :: "env \<Rightarrow> rule \<Rightarrow> world \<Rightarrow> bucket \<times> world" where
  "beginStats e ruleConfig w =
     (let data = bucketOf (perRule w) (ruleName ruleConfig);
          w1 = putData (ruleName ruleConfig) data w;
          data1 = data\<lparr>executions := executions data + 1\<rparr>;
          w2 = putData (ruleName ruleConfig) data1 w1;
          (t, w3) = hrtime_bigint e w2;
          data2 = data1\<lparr>totalTime := totalTime data1 - t\<rparr>
      in (data2, putData (ruleName ruleConfig) data2 w3))"

text \<open>\<^verbatim>\<open>data.totalTime += process.hrtime.bigint()\<close>.\<close>

definition endStats :: "env \<Rightarrow> rule \<Rightarrow> bucket \<Rightarrow> world \<Rightarrow> world" where
  "endStats e ruleConfig data w =
     (let (t, w1) = hrtime_bigint e w
      in putData (ruleName ruleConfig) (data\<lparr>totalTime := totalTime data + t\<rparr>) w1)"

text \<open>\<^verbatim>\<open>ruleConfig.check(context, ruleConfig.options, { id: ruleConfig.id })\<close>.\<close>

definition callCheck :: "rule \<Rightarrow> world \<Rightarrow> nat \<Rightarrow> outcome" where
  "callCheck ruleConfig w context =
     rule_check ruleConfig (contexts w ! context) (options ruleConfig) (rule_id ruleConfig)"

text \<open>Line 177: the awaited call of the rule's check operation.\<close>

definition awaitCheck :: "nat \<Rightarrow> rule \<Rightarrow> world \<Rightarrow> unit result" where
  "awaitCheck context ruleConfig w =
     (let w1 = emit (CheckStart context (rule_id ruleConfig)) w
      in case callCheck ruleConfig w1 context of
           Throw \<Rightarrow> (Inl (CheckThrew (rule_id ruleConfig)), w1)
         | Fail \<Rightarrow> (Inr (), emit (CheckEnd context (rule_id ruleConfig)) (setFailed context w1))
         | Pass \<Rightarrow> (Inr (), emit (CheckEnd context (rule_id ruleConfig)) w1))"

text \<open>One iteration of the loop over the rules.\<close>

definition checkRule :: "env \<Rightarrow> nat \<Rightarrow> rule \<Rightarrow> world \<Rightarrow> unit result" where
  "checkRule e context ruleConfig w =
     (let (data, w1) = beginStats e ruleConfig w;
          (skip, w2) = shouldSkipPackage e context ruleConfig w1
      in if skip then (Inr (), endStats e ruleConfig data w2)
         else case awaitCheck context ruleConfig w2 of
                (Inl err, w3) \<Rightarrow> (Inl err, w3)
              | (Inr _, w3) \<Rightarrow> (Inr (), endStats e ruleConfig data w3))"

fun checkRules :: "env \<Rightarrow> nat \<Rightarrow> rule list \<Rightarrow> world \<Rightarrow> unit result" where
  "checkRules e context [] w = (Inr (), w)"
| "checkRules e context (ruleConfig # rest) w =
     (case checkRule e context ruleConfig w of
        (Inl err, w1) \<Rightarrow> (Inl err, w1)
      | (Inr _, w1) \<Rightarrow> checkRules e context rest w1)"

text \<open>Lines 155 to 158: the message of a verbose run.\<close>

definition announce :: "env \<Rightarrow> resolvedConfig \<Rightarrow> nat \<Rightarrow> world \<Rightarrow> world" where
  "announce e resolvedConfig context w =
     (if verbose resolvedConfig
      then emit (ConsoleLog (''Starting check against '' @ getName e w context)) w
      else w)"

definition checkPackage :: "env \<Rightarrow> resolvedConfig \<Rightarrow> nat \<Rightarrow> world \<Rightarrow> unit result" where
  "checkPackage e resolvedConfig context w =
     (case checkRules e context (rules resolvedConfig) (announce e resolvedConfig context w) of
        (Inl err, w2) \<Rightarrow> (Inl err, w2)
      | (Inr _, w2) \<Rightarrow> (Inr (), finish context w2))"

subsection \<open>check\<close>

text \<open>Lines 31 to 33: validate the configuration once.\<close>

fun validateRules :: "rule list \<Rightarrow> world \<Rightarrow> unit result" where
  "validateRules [] w = (Inr (), w)"
| "validateRules (ruleConfig # rest) w =
     (let w1 = emit (Validate (rule_id ruleConfig)) w
      in if optionsRuntype ruleConfig (options ruleConfig) then validateRules rest w1
         else (Inl (OptionsInvalid (rule_id ruleConfig)), w1))"

definition countPackage :: "world \<Rightarrow> world" where
  "countPackage w = w\<lparr>packagesChecked := packagesChecked w + 1\<rparr>"

text \<open>
  \<^verbatim>\<open>packagesChecked++; await checkPackage(workspaceContext, stats)\<close> and
  \<^verbatim>\<open>packagesChecked++; await checkPackage(workspaceContext.createChildContext(dir), stats)\<close>,
  the two statements that each branch of the source repeats.
\<close>

definition checkWorkspace :: "env \<Rightarrow> resolvedConfig \<Rightarrow> world \<Rightarrow> unit result" where
  "checkWorkspace e resolvedConfig w = checkPackage e resolvedConfig 0 (countPackage w)"

definition checkChild :: "env \<Rightarrow> resolvedConfig \<Rightarrow> path \<Rightarrow> world \<Rightarrow> unit result" where
  "checkChild e resolvedConfig dir w =
     (let (c, w1) = createChildContext dir (countPackage w)
      in checkPackage e resolvedConfig c w1)"

text \<open>Lines 44 to 52: the loop over the resolved explicit paths.\<close>

fun checkPaths :: "env \<Rightarrow> resolvedConfig \<Rightarrow> path \<Rightarrow> path list \<Rightarrow> world \<Rightarrow> unit result" where
  "checkPaths e resolvedConfig workspaceDir [] w = (Inr (), w)"
| "checkPaths e resolvedConfig workspaceDir (p # rest) w =
     (case (if workspaceDir = p
            then checkWorkspace e resolvedConfig w
            else checkChild e resolvedConfig p w) of
        (Inl err, w1) \<Rightarrow> (Inl err, w1)
      | (Inr _, w1) \<Rightarrow> checkPaths e resolvedConfig workspaceDir rest w1)"

text \<open>Lines 57 to 60: the loop over the package directories of the workspace.\<close>

fun checkPackageDirs :: "env \<Rightarrow> resolvedConfig \<Rightarrow> path list \<Rightarrow> world \<Rightarrow> unit result" where
  "checkPackageDirs e resolvedConfig [] w = (Inr (), w)"
| "checkPackageDirs e resolvedConfig (dir # rest) w =
     (case checkChild e resolvedConfig dir w of
        (Inl err, w1) \<Rightarrow> (Inl err, w1)
      | (Inr _, w1) \<Rightarrow> checkPackageDirs e resolvedConfig rest w1)"

text \<open>Lines 41 to 64: the three ways of choosing the target scopes.\<close>

definition checkTargets ::
  "env \<Rightarrow> resolvedConfig \<Rightarrow> path \<Rightarrow> path \<Rightarrow> path list option \<Rightarrow> world \<Rightarrow> unit result" where
  "checkTargets e resolvedConfig workspaceDir cwd paths w =
     (case paths of
        Some ps \<Rightarrow>
          checkPaths e resolvedConfig workspaceDir (map (\<lambda>p. pathDirname (pathResolve p)) ps) w
      | None \<Rightarrow>
          if workspaceDir = cwd then
            (case checkWorkspace e resolvedConfig w of
               (Inl err, w1) \<Rightarrow> (Inl err, w1)
             | (Inr _, w1) \<Rightarrow>
                 checkPackageDirs e resolvedConfig (getWorkspacePackageDirs e workspaceDir) w1)
          else checkChild e resolvedConfig cwd w)"

text \<open>BigInt division truncates towards zero and throws on a zero divisor.\<close>

definition bigint_div :: "int \<Rightarrow> int \<Rightarrow> error + int" where
  "bigint_div a b = (if b = 0 then Inl RangeError else Inr (sgn a * sgn b * (\<bar>a\<bar> div \<bar>b\<bar>)))"

text \<open>Lines 101 to 108: one table row for each bucket.\<close>

fun addRows :: "bucket list \<Rightarrow> row list \<Rightarrow> error + row list" where
  "addRows [] acc = Inr acc"
| "addRows (r # rest) acc =
     (case bigint_div (totalTime r) (executions r) of
        Inl err \<Rightarrow> Inl err
      | Inr q \<Rightarrow> addRows rest (acc @ [(totalTime r, stat_name r, executions r, q)]))"

text \<open>Lines 68 to 110: the table of the cost of each rule type, sorted by total time.\<close>

definition printCostPerRule :: "world \<Rightarrow> unit result" where
  "printCostPerRule w =
     (if length (perRule w) > 0 then
        (case addRows (sort_key totalTime (map snd (perRule w))) [] of
           Inl err \<Rightarrow> (Inl err, w)
         | Inr rows \<Rightarrow> (Inr (), emit (CostPerRuleTable rows) w))
      else (Inr (), w))"

definition printIncludesExcludesCosts :: "world \<Rightarrow> world" where
  "printIncludesExcludesCosts w = emit (IncludesExcludesCosts (includesCost w) (excludesCost w)) w"

text \<open>Lines 137 to 143: call the \<^verbatim>\<open>printStats\<close> of the rules, each function once.\<close>

fun printRuleStats :: "rule list \<Rightarrow> nat set \<Rightarrow> world \<Rightarrow> world" where
  "printRuleStats [] executed w = w"
| "printRuleStats (resolvedRule # rest) executed w =
     (case printStats resolvedRule of
        Some f \<Rightarrow>
          if f \<notin> executed
          then printRuleStats rest (insert f executed) (emit (RulePrintStats f) w)
          else printRuleStats rest executed w
      | None \<Rightarrow> printRuleStats rest executed w)"

text \<open>Lines 67 to 144: the statistics report.\<close>

definition report ::
  "env \<Rightarrow> resolvedConfig \<Rightarrow> int \<Rightarrow> int \<Rightarrow> int \<Rightarrow> int \<Rightarrow> world \<Rightarrow> unit result" where
  "report e resolvedConfig checkStart checkConfigStart checkConfigEnd checkEnd w =
     (case printCostPerRule w of
        (Inl err, w1) \<Rightarrow> (Inl err, w1)
      | (Inr _, w1) \<Rightarrow>
          let w2 = (if globHasPrintStats e then emit GlobPrintStats w1 else w1);
              w3 = printIncludesExcludesCosts w2;
              w4 = emit (RandomStats (packagesChecked w3)
                           (checkConfigEnd - checkConfigStart)
                           ((checkConfigEnd - checkConfigStart) * (packagesChecked w3 - 1))
                           (checkEnd - checkStart)) w3
          in (Inr (), printRuleStats (rules resolvedConfig) {} w4))"

text \<open>
  The locals of a run (\<^verbatim>\<open>workspaceContext\<close>, \<^verbatim>\<open>stats\<close>, \<^verbatim>\<open>packagesChecked\<close>) and
  its trace start empty; the clock and the two module-level counters are kept.
\<close>

definition newRun :: "world \<Rightarrow> world" where
  "newRun w = w\<lparr>contexts := [], perRule := [], packagesChecked := 0, trace := []\<rparr>"

definition check ::
  "env \<Rightarrow> resolvedConfig \<Rightarrow> path \<Rightarrow> path list option \<Rightarrow> bool \<Rightarrow> world \<Rightarrow> bool result" where
  "check e resolvedConfig cwd paths reportStats w =
     (let (checkStart, w1) = hrtime_bigint e (newRun w)
      in case findWorkspaceDir e cwd of
           None \<Rightarrow> (Inl (NoWorkspace cwd), w1)
         | Some workspaceDir \<Rightarrow>
             let w2 = w1\<lparr>contexts := [\<lparr>packageDir = workspaceDir, failed = False, parent = None\<rparr>]\<rparr>;
                 (checkConfigStart, w3) = hrtime_bigint e w2
             in case validateRules (rules resolvedConfig) w3 of
                  (Inl err, w4) \<Rightarrow> (Inl err, w4)
                | (Inr _, w4) \<Rightarrow>
                    let (checkConfigEnd, w5) = hrtime_bigint e w4
                    in case checkTargets e resolvedConfig workspaceDir cwd paths w5 of
                         (Inl err, w6) \<Rightarrow> (Inl err, w6)
                       | (Inr _, w6) \<Rightarrow>
                           let (checkEnd, w7) = hrtime_bigint e w6
                           in case (if reportStats
                                    then report e resolvedConfig checkStart checkConfigStart
                                           checkConfigEnd checkEnd w7
                                    else (Inr (), w7)) of
                                (Inl err, w8) \<Rightarrow> (Inl err, w8)
                              | (Inr _, w8) \<Rightarrow> (Inr (\<not> failed (contexts w8 ! 0)), w8))"

subsection \<open>Observations on a trace and on the statistics\<close>

text \<open>The calls of check operations and of \<^verbatim>\<open>finish()\<close>, in the order they happened.\<close>

fun isRuleEvent :: "event \<Rightarrow> bool" where
  "isRuleEvent (CheckStart c i) = True"
| "isRuleEvent (CheckEnd c i) = True"
| "isRuleEvent (Finish c) = True"
| "isRuleEvent ev = False"

definition ruleEvents :: "event list \<Rightarrow> event list" where
  "ruleEvents t = filter isRuleEvent t"

text \<open>The scopes whose check was completed, one entry for each call of \<^verbatim>\<open>finish()\<close>.\<close>

fun finishedScopes :: "event list \<Rightarrow> nat list" where
  "finishedScopes [] = []"
| "finishedScopes (Finish c # t) = c # finishedScopes t"
| "finishedScopes (ev # t) = finishedScopes t"

fun isValidate :: "event \<Rightarrow> bool" where
  "isValidate (Validate i) = True"
| "isValidate ev = False"

text \<open>The function references called by the loop over the rules' \<^verbatim>\<open>printStats\<close>.\<close>

fun printStatsCalls :: "event list \<Rightarrow> nat list" where
  "printStatsCalls [] = []"
| "printStatsCalls (RulePrintStats f # t) = f # printStatsCalls t"
| "printStatsCalls (ev # t) = printStatsCalls t"

text \<open>The events that checking a scope can produce.\<close>

fun scopeEvent :: "event \<Rightarrow> bool" where
  "scopeEvent (GlobEval n pats) = True"
| "scopeEvent (ConsoleLog s) = True"
| "scopeEvent (CheckStart c i) = True"
| "scopeEvent (CheckEnd c i) = True"
| "scopeEvent (Finish c) = True"
| "scopeEvent ev = False"

text \<open>The events of the statistics report.\<close>

fun reportEvent :: "event \<Rightarrow> bool" where
  "reportEvent (CostPerRuleTable rows) = True"
| "reportEvent GlobPrintStats = True"
| "reportEvent (IncludesExcludesCosts i x) = True"
| "reportEvent (RandomStats n v old t) = True"
| "reportEvent (RulePrintStats f) = True"
| "reportEvent ev = False"

text \<open>The events that one iteration over a rule can produce.\<close>

fun stepEvent :: "event \<Rightarrow> bool" where
  "stepEvent (GlobEval n pats) = True"
| "stepEvent (CheckStart c i) = True"
| "stepEvent (CheckEnd c i) = True"
| "stepEvent ev = False"

text \<open>The trace of \<open>w'\<close> is the trace of \<open>w\<close> followed by events of the kind \<open>A\<close>.\<close>

definition extends :: "(event \<Rightarrow> bool) \<Rightarrow> world \<Rightarrow> world \<Rightarrow> bool" where
  "extends A w w' = (take (length (trace w)) (trace w') = trace w
                     \<and> list_all A (drop (length (trace w)) (trace w')))"

definition sumExecutions :: "(string \<times> bucket) list \<Rightarrow> int" where
  "sumExecutions m = sum_list (map (\<lambda>kv. executions (snd kv)) m)"

text \<open>The store of \<open>w'\<close> is the store of \<open>w\<close>, but for the flag of context \<open>c\<close>, which may have been set.\<close>

definition marks :: "nat \<Rightarrow> world \<Rightarrow> world \<Rightarrow> bool" where
  "marks c w w' = (contexts w' = contexts w
                   \<or> contexts w' = (contexts w)[c := (contexts w ! c)\<lparr>failed := True\<rparr>])"

text \<open>
  What holds of the statistics between two scopes: every rule was counted once for each
  scope checked so far, each bucket belongs to a rule of the configuration and has at
  least one execution, and the scopes counted are the scopes finished.
\<close>

definition statsInv :: "resolvedConfig \<Rightarrow> world \<Rightarrow> bool" where
  "statsInv cfg w =
     (sumExecutions (perRule w) = packagesChecked w * int (length (rules cfg))
      \<and> packagesChecked w = int (length (finishedScopes (trace w)))
      \<and> fst ` set (perRule w) \<subseteq> ruleName ` set (rules cfg)
      \<and> distinct (map fst (perRule w))
      \<and> list_all (\<lambda>kv. 0 < executions (snd kv)) (perRule w))"


text \<open>
  What holds of the store between two scopes: context 0 is the Workspace Context, every
  other context is a child of it, and the flag of the Workspace Context is set exactly
  when the flag of some finished scope is.
\<close>

definition storeInv :: "world \<Rightarrow> bool" where
  "storeInv w =
     (contexts w \<noteq> []
      \<and> parent (contexts w ! 0) = None
      \<and> list_all (\<lambda>c. parent c = Some 0) (tl (contexts w))
      \<and> list_all (\<lambda>c. c < length (contexts w)) (finishedScopes (trace w))
      \<and> failed (contexts w ! 0) = list_ex (\<lambda>c. failed (contexts w ! c)) (finishedScopes (trace w)))"

subsection \<open>An example workspace and configuration\<close>

text \<open>
  A workspace \<^verbatim>\<open>/ws\<close> with the packages \<^verbatim>\<open>/ws/pkgX\<close> and \<^verbatim>\<open>/ws/pkgY\<close>. A scope is
  named after its directory, a pattern matches the name it spells, and the clock advances
  by 100 with each reading.
\<close>

definition ex_env :: env where
  "ex_env = \<lparr>hrtime = (\<lambda>n. 100 * int n),
             matchesAnyGlob = (\<lambda>n pats. n \<in> set pats),
             globHasPrintStats = True,
             findWorkspaceDir = (\<lambda>cwd. if take 1 cwd = [''ws''] then Some [''ws''] else None),
             getWorkspacePackageDirs = (\<lambda>d. [d @ [''pkgX''], d @ [''pkgY'']]),
             packageName = (\<lambda>p. if p = [] then [] else last p)\<rparr>"

definition ruleA :: rule where
  "ruleA = \<lparr>rule_id = ''a'', name = Some ''ruleA'', options = ''{}'',
            optionsRuntype = (\<lambda>opts. True),
            includePackages = None, excludePackages = None,
            includeWorkspaceRoot = Some False,
            rule_check = (\<lambda>c opts i. Pass),
            printStats = Some 7\<rparr>"

definition ruleB :: rule where
  "ruleB = \<lparr>rule_id = ''b'', name = None, options = ''{}'',
            optionsRuntype = (\<lambda>opts. True),
            includePackages = None, excludePackages = None,
            includeWorkspaceRoot = Some True,
            rule_check = (\<lambda>c opts i. if packageDir c = [''ws'', ''pkgY''] then Fail else Pass),
            printStats = Some 7\<rparr>"

text \<open>A rule that both includes and excludes \<^verbatim>\<open>pkgX\<close>, one with invalid options, one that throws.\<close>

definition ruleC :: rule where
  "ruleC = ruleB\<lparr>rule_id := ''c'', name := Some ''ruleC'',
                 includePackages := Some [''pkgX''], excludePackages := Some [''pkgX'']\<rparr>"

definition ruleInvalid :: rule where
  "ruleInvalid = ruleB\<lparr>rule_id := ''bad'', optionsRuntype := (\<lambda>opts. False)\<rparr>"

definition ruleThrows :: rule where
  "ruleThrows = ruleB\<lparr>rule_id := ''t'', name := Some ''ruleT'',
                      rule_check := (\<lambda>c opts i. Throw)\<rparr>"

definition ex_config :: resolvedConfig where
  "ex_config = \<lparr>rules = [ruleA, ruleB], verbose = False\<rparr>"

definition ex_config3 :: resolvedConfig where
  "ex_config3 = \<lparr>rules = [ruleA, ruleC, ruleB], verbose = True\<rparr>"

definition ex_config_throw :: resolvedConfig where
  "ex_config_throw = \<lparr>rules = [ruleA, ruleThrows, ruleB], verbose = False\<rparr>"

definition ex_config_bad :: resolvedConfig where
  "ex_config_bad = \<lparr>rules = [ruleA, ruleInvalid, ruleB], verbose = False\<rparr>"

definition ex_world :: world where
  "ex_world = \<lparr>ticks = 3,
               contexts = [\<lparr>packageDir = [''ws''], failed = False, parent = None\<rparr>,
                           \<lparr>packageDir = [''ws'', ''pkgX''], failed = False, parent = Some 0\<rparr>],
               perRule = [], packagesChecked = 0,
               includesCost = 40, excludesCost = 50, trace = []\<rparr>"

text \<open>The same state, after two runs of the rule without a name.\<close>

definition ex_world2 :: world where
  "ex_world2 = ex_world\<lparr>perRule :=
     [(''unknown'', \<lparr>stat_name = ''unknown'', totalTime = 250, executions = 2\<rparr>)]\<rparr>"

section \<open>The skip decision\<close>

lemmas ex_defs = ex_env_def ruleA_def ruleB_def ruleC_def ruleInvalid_def ruleThrows_def
  ex_config_def ex_config3_def ex_config_throw_def ex_config_bad_def ex_world_def ex_world2_def

text \<open>
  C5. For a rule whose \<open>includeWorkspaceRoot\<close> is falsy and the workspace-root scope,
  \<open>shouldSkipPackage\<close> returns true and leaves the whole state as it was: no glob is
  evaluated, and \<open>includesCost\<close> and \<open>excludesCost\<close> are unchanged.
\<close>

theorem shouldSkipPackage_workspace_root:
  assumes "falsy (includeWorkspaceRoot r)" and "getWorkspaceContext w c = c"
  shows "shouldSkipPackage e c r w = (True, w)
       \<and> includesCost (snd (shouldSkipPackage e c r w)) = includesCost w
       \<and> excludesCost (snd (shouldSkipPackage e c r w)) = excludesCost w
       \<and> trace (snd (shouldSkipPackage e c r w)) = trace w"
  using assms by (simp add: shouldSkipPackage_def)

theorem shouldSkipPackage_workspace_root_witness:
  "falsy (includeWorkspaceRoot ruleA) \<and> getWorkspaceContext ex_world 0 = 0
   \<and> shouldSkipPackage ex_env 0 ruleA ex_world = (True, ex_world)
   \<and> includesCost (snd (shouldSkipPackage ex_env 0 ruleA ex_world)) = 40
   \<and> excludesCost (snd (shouldSkipPackage ex_env 0 ruleA ex_world)) = 50"
proof -
  have h1: "falsy (includeWorkspaceRoot ruleA)"
    by (simp add: falsy_def ruleA_def)
  have h2: "getWorkspaceContext ex_world 0 = 0"
    by (simp add: getWorkspaceContext_def ex_world_def)
  show ?thesis
    using shouldSkipPackage_workspace_root [OF h1 h2, of ex_env] h1 h2
    by (simp add: ex_world_def)
qed

text \<open>
  C6. When \<open>excludePackages\<close> is defined and matches the name of the scope,
  \<open>shouldSkipPackage\<close> returns true whatever \<open>includePackages\<close> is. The exclude step comes
  first: the include patterns are not evaluated (\<open>includesCost\<close> is unchanged, and the
  only glob evaluation, if any, is that of the exclude patterns).
\<close>

theorem shouldSkipPackage_excluded:
  assumes "excludePackages r = Some pats" and "matchesAnyGlob e (getName e w c) pats"
  shows "fst (shouldSkipPackage e c r w)
       \<and> includesCost (snd (shouldSkipPackage e c r w)) = includesCost w
       \<and> (trace (snd (shouldSkipPackage e c r w)) = trace w
          \<or> trace (snd (shouldSkipPackage e c r w)) = trace w @ [GlobEval (getName e w c) pats])"
  using assms
  by (simp add: shouldSkipPackage_def Let_def hrtime_bigint_def matchesAnyGlob_call_def
      emit_def getName_def)

theorem shouldSkipPackage_excluded_witness:
  "excludePackages ruleC = Some [''pkgX''] \<and> includePackages ruleC = Some [''pkgX'']
   \<and> matchesAnyGlob ex_env (getName ex_env ex_world 1) [''pkgX'']
   \<and> fst (shouldSkipPackage ex_env 1 ruleC ex_world)
   \<and> includesCost (snd (shouldSkipPackage ex_env 1 ruleC ex_world)) = 40
   \<and> trace (snd (shouldSkipPackage ex_env 1 ruleC ex_world)) = [GlobEval ''pkgX'' [''pkgX'']]"
proof -
  have h1: "excludePackages ruleC = Some [''pkgX'']"
    by (simp add: ruleC_def)
  have h2: "matchesAnyGlob ex_env (getName ex_env ex_world 1) [''pkgX'']"
    by (simp add: getName_def ex_env_def ex_world_def)
  have h4: "trace (snd (shouldSkipPackage ex_env 1 ruleC ex_world)) = [GlobEval ''pkgX'' [''pkgX'']]"
    by (simp add: shouldSkipPackage_def Let_def hrtime_bigint_def matchesAnyGlob_call_def
        emit_def getWorkspaceContext_def getName_def falsy_def ex_defs)
  have h5: "getName ex_env ex_world 1 = ''pkgX''"
    by (simp add: getName_def ex_env_def ex_world_def)
  show ?thesis
    using shouldSkipPackage_excluded [OF h1 h2] h1 h2 h4 h5
    by (simp add: ruleC_def ruleB_def ex_world_def)
qed

section \<open>Properties of the steps of a run\<close>

lemmas prim_defs = hrtime_bigint_def emit_def matchesAnyGlob_call_def putData_def
  setFailed_def countPackage_def

lemma extends_iff:
  "extends A w w' \<longleftrightarrow> (\<exists>evs. trace w' = trace w @ evs \<and> list_all A evs)"
proof
  assume "extends A w w'"
  then have "trace w' = trace w @ drop (length (trace w)) (trace w')"
        and "list_all A (drop (length (trace w)) (trace w'))"
    by (simp_all add: extends_def) (metis append_take_drop_id)
  then show "\<exists>evs. trace w' = trace w @ evs \<and> list_all A evs"
    by blast
next
  assume "\<exists>evs. trace w' = trace w @ evs \<and> list_all A evs"
  then show "extends A w w'"
    by (auto simp: extends_def)
qed

lemma extends_refl: "trace w' = trace w \<Longrightarrow> extends A w w'"
  by (simp add: extends_def)

lemma extends_trans: "extends A w w1 \<Longrightarrow> extends A w1 w2 \<Longrightarrow> extends A w w2"
  by (auto simp: extends_iff)

lemma extends_weaken: "extends A w w' \<Longrightarrow> (\<And>ev. A ev \<Longrightarrow> B ev) \<Longrightarrow> extends B w w'"
  by (auto simp: extends_iff list_all_iff)

lemma extends_emit: "A ev \<Longrightarrow> extends A w (emit ev w)"
  by (simp add: extends_def emit_def)

lemma ruleEvents_append [simp]: "ruleEvents (s @ t) = ruleEvents s @ ruleEvents t"
  by (simp add: ruleEvents_def)

lemma ruleEvents_Nil [simp]: "ruleEvents [] = []"
  by (simp add: ruleEvents_def)

lemma ruleEvents_Cons [simp]:
  "ruleEvents (ev # t) = (if isRuleEvent ev then ev # ruleEvents t else ruleEvents t)"
  by (simp add: ruleEvents_def)

subsection \<open>Frame properties of the skip decision\<close>

lemma ssp_contexts [simp]: "contexts (snd (shouldSkipPackage e c r w)) = contexts w"
  by (simp add: shouldSkipPackage_def Let_def split_beta prim_defs split: option.splits)

lemma ssp_perRule [simp]: "perRule (snd (shouldSkipPackage e c r w)) = perRule w"
  by (simp add: shouldSkipPackage_def Let_def split_beta prim_defs split: option.splits)

lemma ssp_packagesChecked [simp]:
  "packagesChecked (snd (shouldSkipPackage e c r w)) = packagesChecked w"
  by (simp add: shouldSkipPackage_def Let_def split_beta prim_defs split: option.splits)

lemma ssp_ticks: "ticks w \<le> ticks (snd (shouldSkipPackage e c r w))"
  by (simp add: shouldSkipPackage_def Let_def split_beta prim_defs split: option.splits)

lemma ssp_ruleEvents [simp]:
  "ruleEvents (trace (snd (shouldSkipPackage e c r w))) = ruleEvents (trace w)"
  by (simp add: shouldSkipPackage_def Let_def split_beta prim_defs split: option.splits)

lemma ssp_trace:
  "\<exists>evs. trace (snd (shouldSkipPackage e c r w)) = trace w @ evs \<and> list_all stepEvent evs"
  by (simp add: shouldSkipPackage_def Let_def split_beta prim_defs split: option.splits)

lemma ssp_extends: "extends stepEvent w (snd (shouldSkipPackage e c r w))"
  by (simp add: extends_iff ssp_trace)

lemma ssp_fst:
  "fst (shouldSkipPackage e c r w) =
     (falsy (includeWorkspaceRoot r) \<and> getWorkspaceContext w c = c
      \<or> (case excludePackages r of Some pats \<Rightarrow> matchesAnyGlob e (getName e w c) pats | None \<Rightarrow> False)
      \<or> (case includePackages r of None \<Rightarrow> False | Some pats \<Rightarrow> \<not> matchesAnyGlob e (getName e w c) pats))"
  by (simp add: shouldSkipPackage_def Let_def split_beta prim_defs getName_def
      split: option.splits)

lemma ssp_fst_cong:
  "parent (contexts w' ! c) = parent (contexts w ! c) \<Longrightarrow>
   packageDir (contexts w' ! c) = packageDir (contexts w ! c) \<Longrightarrow>
   fst (shouldSkipPackage e c r w') = fst (shouldSkipPackage e c r w)"
proof -
  assume a: "parent (contexts w' ! c) = parent (contexts w ! c)"
    and b: "packageDir (contexts w' ! c) = packageDir (contexts w ! c)"
  have "getName e w' c = getName e w c" and "getWorkspaceContext w' c = getWorkspaceContext w c"
    using a b by (simp_all add: getName_def getWorkspaceContext_def)
  then show ?thesis
    by (simp add: ssp_fst split: option.splits)
qed


subsection \<open>The statistics of one rule\<close>

lemma sumExecutions_update:
  "sumExecutions (AList.update k v m) = sumExecutions m - executions (bucketOf m k) + executions v"
  by (induction m) (auto simp: sumExecutions_def bucketOf_def)

lemma bucketOf_update [simp]:
  "bucketOf (AList.update k v m) k' = (if k' = k then v else bucketOf m k')"
  by (simp add: bucketOf_def update_conv')

lemma bs_contexts [simp]: "contexts (snd (beginStats e r w)) = contexts w"
  by (simp add: beginStats_def Let_def split_beta prim_defs)

lemma bs_packagesChecked [simp]: "packagesChecked (snd (beginStats e r w)) = packagesChecked w"
  by (simp add: beginStats_def Let_def split_beta prim_defs)

lemma bs_trace [simp]: "trace (snd (beginStats e r w)) = trace w"
  by (simp add: beginStats_def Let_def split_beta prim_defs)

lemma bs_ticks [simp]: "ticks (snd (beginStats e r w)) = Suc (ticks w)"
  by (simp add: beginStats_def Let_def split_beta prim_defs)

lemma bs_perRule [simp]:
  "perRule (snd (beginStats e r w)) = AList.update (ruleName r) (fst (beginStats e r w)) (perRule w)"
  by (simp add: beginStats_def Let_def split_beta prim_defs)

lemma bs_data [simp]:
  "stat_name (fst (beginStats e r w)) = stat_name (bucketOf (perRule w) (ruleName r))"
  "executions (fst (beginStats e r w)) = executions (bucketOf (perRule w) (ruleName r)) + 1"
  "totalTime (fst (beginStats e r w)) =
     totalTime (bucketOf (perRule w) (ruleName r)) - hrtime e (ticks w)"
  by (simp_all add: beginStats_def Let_def split_beta prim_defs)

lemma es_contexts [simp]: "contexts (endStats e r d w) = contexts w"
  by (simp add: endStats_def Let_def split_beta prim_defs)

lemma es_packagesChecked [simp]: "packagesChecked (endStats e r d w) = packagesChecked w"
  by (simp add: endStats_def Let_def split_beta prim_defs)

lemma es_trace [simp]: "trace (endStats e r d w) = trace w"
  by (simp add: endStats_def Let_def split_beta prim_defs)

lemma es_ticks [simp]: "ticks (endStats e r d w) = Suc (ticks w)"
  by (simp add: endStats_def Let_def split_beta prim_defs)

lemma es_perRule [simp]:
  "perRule (endStats e r d w) =
     AList.update (ruleName r) (d\<lparr>totalTime := totalTime d + hrtime e (ticks w)\<rparr>) (perRule w)"
  by (simp add: endStats_def Let_def split_beta prim_defs)

subsection \<open>The awaited check\<close>

lemma ac_perRule [simp]: "perRule (snd (awaitCheck c r w)) = perRule w"
  by (simp add: awaitCheck_def Let_def prim_defs callCheck_def split: outcome.splits)

lemma ac_packagesChecked [simp]: "packagesChecked (snd (awaitCheck c r w)) = packagesChecked w"
  by (simp add: awaitCheck_def Let_def prim_defs callCheck_def split: outcome.splits)

lemma ac_ticks [simp]: "ticks (snd (awaitCheck c r w)) = ticks w"
  by (simp add: awaitCheck_def Let_def prim_defs callCheck_def split: outcome.splits)

lemma ac_fst:
  "fst (awaitCheck c r w) =
     (if callCheck r w c = Throw
      then Inl (CheckThrew (rule_id r)) else Inr ())"
  by (simp add: awaitCheck_def Let_def prim_defs callCheck_def split: outcome.splits)

lemma ac_contexts:
  "contexts (snd (awaitCheck c r w)) =
     (if callCheck r w c = Fail
      then (contexts w)[c := (contexts w ! c)\<lparr>failed := True\<rparr>] else contexts w)"
  by (simp add: awaitCheck_def Let_def prim_defs callCheck_def split: outcome.splits)

lemma ac_trace:
  "trace (snd (awaitCheck c r w)) =
     trace w @ CheckStart c (rule_id r) #
       (if callCheck r w c = Throw then []
        else [CheckEnd c (rule_id r)])"
  by (simp add: awaitCheck_def Let_def prim_defs callCheck_def split: outcome.splits)

lemma ac_marks: "marks c w (snd (awaitCheck c r w))"
  by (simp add: marks_def ac_contexts)

lemma ac_extends: "extends stepEvent w (snd (awaitCheck c r w))"
  by (simp add: extends_iff ac_trace)


subsection \<open>One iteration\<close>

lemma checkRule_alt:
  "checkRule e c r w =
     (if fst (shouldSkipPackage e c r w)
      then (Inr (), endStats e r (fst (beginStats e r w))
                      (snd (shouldSkipPackage e c r (snd (beginStats e r w)))))
      else if callCheck r w c = Throw
      then (Inl (CheckThrew (rule_id r)),
            snd (awaitCheck c r (snd (shouldSkipPackage e c r (snd (beginStats e r w))))))
      else (Inr (), endStats e r (fst (beginStats e r w))
                      (snd (awaitCheck c r (snd (shouldSkipPackage e c r (snd (beginStats e r w))))))))"
proof -
  let ?w1 = "snd (beginStats e r w)"
  let ?w2 = "snd (shouldSkipPackage e c r ?w1)"
  have skip: "fst (shouldSkipPackage e c r ?w1) = fst (shouldSkipPackage e c r w)"
    by (rule ssp_fst_cong) simp_all
  have call: "callCheck r ?w2 c = callCheck r w c"
    by (simp add: callCheck_def)
  have "fst (awaitCheck c r ?w2) =
          (if callCheck r w c = Throw then Inl (CheckThrew (rule_id r)) else Inr ())"
    by (simp add: ac_fst call)
  then show ?thesis
    by (simp add: checkRule_def Let_def split_beta skip split: prod.splits sum.splits)
qed

lemma cr_fst:
  "fst (checkRule e c r w) =
     (if \<not> fst (shouldSkipPackage e c r w) \<and> callCheck r w c = Throw
      then Inl (CheckThrew (rule_id r)) else Inr ())"
  by (simp add: checkRule_alt)

lemma cr_contexts:
  "contexts (snd (checkRule e c r w)) =
     (if \<not> fst (shouldSkipPackage e c r w) \<and> callCheck r w c = Fail
      then (contexts w)[c := (contexts w ! c)\<lparr>failed := True\<rparr>] else contexts w)"
  by (simp add: checkRule_alt ac_contexts callCheck_def)

lemma cr_marks: "marks c w (snd (checkRule e c r w))"
  by (simp add: marks_def cr_contexts)

lemma cr_packagesChecked [simp]:
  "packagesChecked (snd (checkRule e c r w)) = packagesChecked w"
  by (simp add: checkRule_alt)

lemma cr_ruleEvents:
  "ruleEvents (trace (snd (checkRule e c r w))) =
     ruleEvents (trace w) @
       (if fst (shouldSkipPackage e c r w) then []
        else CheckStart c (rule_id r) #
               (if callCheck r w c = Throw then [] else [CheckEnd c (rule_id r)]))"
  by (simp add: checkRule_alt ac_trace callCheck_def)

lemma cr_extends: "extends stepEvent w (snd (checkRule e c r w))"
proof -
  let ?w1 = "snd (beginStats e r w)"
  let ?w2 = "snd (shouldSkipPackage e c r ?w1)"
  let ?w3 = "snd (awaitCheck c r ?w2)"
  have 1: "extends stepEvent w ?w1"
    by (simp add: extends_refl)
  have 2: "extends stepEvent w ?w2"
    using 1 ssp_extends by (rule extends_trans)
  have 3: "extends stepEvent w ?w3"
    using 2 ac_extends by (rule extends_trans)
  have 4: "extends stepEvent w (endStats e r d ?w2)" for d
    using 2 by (rule extends_trans) (simp add: extends_refl)
  have 5: "extends stepEvent w (endStats e r d ?w3)" for d
    using 3 by (rule extends_trans) (simp add: extends_refl)
  show ?thesis
    using 3 4 5 by (simp add: checkRule_alt)
qed

lemma cr_ticks: "fst (checkRule e c r w) = Inr u \<Longrightarrow> ticks w + 2 \<le> ticks (snd (checkRule e c r w))"
  using ssp_ticks [of "snd (beginStats e r w)" e c r]
  by (simp add: checkRule_alt split: if_splits)

lemma cr_perRule_ok:
  "fst (checkRule e c r w) = Inr u \<Longrightarrow>
   perRule (snd (checkRule e c r w)) =
     AList.update (ruleName r)
       ((fst (beginStats e r w))
          \<lparr>totalTime := totalTime (fst (beginStats e r w))
                          + hrtime e (ticks (snd (checkRule e c r w)) - 1)\<rparr>)
       (perRule w)"
  by (simp add: checkRule_alt split: if_splits)

lemma cr_perRule_throw:
  "fst (checkRule e c r w) = Inl err \<Longrightarrow>
   perRule (snd (checkRule e c r w)) =
     AList.update (ruleName r) (fst (beginStats e r w)) (perRule w)"
  by (simp add: checkRule_alt split: if_splits)

lemma cr_sumExecutions:
  "sumExecutions (perRule (snd (checkRule e c r w))) = sumExecutions (perRule w) + 1"
  by (cases "fst (checkRule e c r w)")
     (simp_all add: cr_perRule_ok cr_perRule_throw sumExecutions_update)

lemma cr_keys:
  "map fst (perRule (snd (checkRule e c r w))) =
     (if ruleName r \<in> set (map fst (perRule w)) then map fst (perRule w)
      else map fst (perRule w) @ [ruleName r])"
  by (cases "fst (checkRule e c r w)")
     (simp_all add: cr_perRule_ok cr_perRule_throw update_keys)

lemma cr_map_of_other:
  "k \<noteq> ruleName r \<Longrightarrow> map_of (perRule (snd (checkRule e c r w))) k = map_of (perRule w) k"
  by (cases "fst (checkRule e c r w)")
     (simp_all add: cr_perRule_ok cr_perRule_throw update_conv')


subsection \<open>The store\<close>

lemma nth_list_update_total:
  "(xs[i := x]) ! j = (if i = j \<and> i < length xs then x else xs ! j)"
  by (cases "i < length xs") (simp_all add: nth_list_update list_update_beyond)

lemma marks_refl: "contexts w' = contexts w \<Longrightarrow> marks c w w'"
  by (simp add: marks_def)

lemma marks_trans:
  assumes "marks c w w1" and "marks c w1 w2"
  shows "marks c w w2"
proof (cases "c < length (contexts w)")
  case True
  then show ?thesis
    using assms by (auto simp: marks_def)
next
  case False
  then show ?thesis
    using assms by (auto simp: marks_def list_update_beyond)
qed

lemma marks_length: "marks c0 w w' \<Longrightarrow> length (contexts w') = length (contexts w)"
  by (auto simp: marks_def)

lemma marks_parent: "marks c0 w w' \<Longrightarrow> parent (contexts w' ! c) = parent (contexts w ! c)"
  by (auto simp: marks_def nth_list_update_total)

lemma marks_packageDir:
  "marks c0 w w' \<Longrightarrow> packageDir (contexts w' ! c) = packageDir (contexts w ! c)"
  by (auto simp: marks_def nth_list_update_total)

lemma marks_other: "marks c0 w w' \<Longrightarrow> c \<noteq> c0 \<Longrightarrow> contexts w' ! c = contexts w ! c"
  by (auto simp: marks_def)

lemma marks_failed: "marks c0 w w' \<Longrightarrow> failed (contexts w ! c) \<Longrightarrow> failed (contexts w' ! c)"
  by (auto simp: marks_def nth_list_update_total)

lemma marks_skip:
  "marks c0 w w' \<Longrightarrow> fst (shouldSkipPackage e c r w') = fst (shouldSkipPackage e c r w)"
  by (rule ssp_fst_cong) (simp_all add: marks_parent marks_packageDir)

lemma marks_getWorkspaceContext:
  "marks c0 w w' \<Longrightarrow> getWorkspaceContext w' c = getWorkspaceContext w c"
  by (simp add: getWorkspaceContext_def marks_parent)

subsection \<open>The loop over the rules\<close>

lemma finishedScopes_append [simp]:
  "finishedScopes (s @ t) = finishedScopes s @ finishedScopes t"
  by (induction s rule: finishedScopes.induct) simp_all

lemma finishedScopes_stepEvent: "list_all stepEvent evs \<Longrightarrow> finishedScopes evs = []"
  by (induction evs rule: finishedScopes.induct) simp_all

lemma extends_finishedScopes:
  "extends stepEvent w w' \<Longrightarrow> finishedScopes (trace w') = finishedScopes (trace w)"
  by (auto simp: extends_iff finishedScopes_stepEvent)

lemma crs_marks: "marks c w (snd (checkRules e c rs w))"
proof (induction rs arbitrary: w)
  case Nil
  show ?case by (simp add: marks_refl)
next
  case (Cons r rs)
  show ?case
  proof (cases "fst (checkRule e c r w)")
    case (Inl err)
    then show ?thesis
      using cr_marks [of c w e r] by (simp add: split_beta)
  next
    case (Inr u)
    then show ?thesis
      using marks_trans [OF cr_marks Cons.IH] by (simp add: split_beta)
  qed
qed

lemma crs_packagesChecked [simp]:
  "packagesChecked (snd (checkRules e c rs w)) = packagesChecked w"
  by (induction rs arbitrary: w) (simp_all add: split_beta split: sum.splits)

lemma crs_extends: "extends stepEvent w (snd (checkRules e c rs w))"
proof (induction rs arbitrary: w)
  case Nil
  show ?case by (simp add: extends_refl)
next
  case (Cons r rs)
  show ?case
  proof (cases "fst (checkRule e c r w)")
    case (Inl err)
    then show ?thesis
      using cr_extends [of w e c r] by (simp add: split_beta)
  next
    case (Inr u)
    then show ?thesis
      using extends_trans [OF cr_extends Cons.IH] by (simp add: split_beta)
  qed
qed

lemma crs_ruleEvents:
  "fst (checkRules e c rs w) = Inr u \<Longrightarrow>
   ruleEvents (trace (snd (checkRules e c rs w))) =
     ruleEvents (trace w) @
       concat (map (\<lambda>r. [CheckStart c (rule_id r), CheckEnd c (rule_id r)])
                 (filter (\<lambda>r. \<not> fst (shouldSkipPackage e c r w)) rs))"
proof (induction rs arbitrary: w)
  case Nil
  show ?case by simp
next
  case (Cons r rs)
  let ?w1 = "snd (checkRule e c r w)"
  from Cons.prems have ok: "fst (checkRule e c r w) = Inr ()"
    and rest: "fst (checkRules e c rs ?w1) = Inr u"
    by (simp_all add: split_beta split: sum.splits)
  have same: "fst (shouldSkipPackage e c r' ?w1) = fst (shouldSkipPackage e c r' w)" for r'
    using cr_marks by (rule marks_skip)
  have notThrow: "fst (shouldSkipPackage e c r w) \<or> callCheck r w c \<noteq> Throw"
    using ok by (simp add: cr_fst split: if_splits)
  have "checkRules e c (r # rs) w = checkRules e c rs ?w1"
    using ok by (simp add: split_beta)
  then show ?case
    using Cons.IH [OF rest] notThrow by (auto simp: same cr_ruleEvents)
qed

lemma crs_sumExecutions:
  "fst (checkRules e c rs w) = Inr u \<Longrightarrow>
   sumExecutions (perRule (snd (checkRules e c rs w))) = sumExecutions (perRule w) + int (length rs)"
proof (induction rs arbitrary: w)
  case Nil
  show ?case by simp
next
  case (Cons r rs)
  let ?w1 = "snd (checkRule e c r w)"
  from Cons.prems have ok: "fst (checkRule e c r w) = Inr ()"
    and rest: "fst (checkRules e c rs ?w1) = Inr u"
    by (simp_all add: split_beta split: sum.splits)
  have "checkRules e c (r # rs) w = checkRules e c rs ?w1"
    using ok by (simp add: split_beta)
  then show ?case
    using Cons.IH [OF rest] by (simp add: cr_sumExecutions)
qed

lemma crs_keys:
  "set (map fst (perRule (snd (checkRules e c rs w)))) \<subseteq> set (map fst (perRule w)) \<union> ruleName ` set rs"
proof (induction rs arbitrary: w)
  case Nil
  show ?case by simp
next
  case (Cons r rs)
  have step: "set (map fst (perRule (snd (checkRule e c r w)))) \<subseteq> insert (ruleName r) (set (map fst (perRule w)))"
    by (auto simp: cr_keys)
  show ?case
  proof (cases "fst (checkRule e c r w)")
    case (Inl err)
    then show ?thesis
      using step by (auto simp: split_beta)
  next
    case (Inr u)
    then show ?thesis
      using step Cons.IH [of "snd (checkRule e c r w)"] by (simp add: split_beta) blast
  qed
qed

lemma crs_distinct:
  "distinct (map fst (perRule w)) \<Longrightarrow> distinct (map fst (perRule (snd (checkRules e c rs w))))"
proof (induction rs arbitrary: w)
  case Nil
  then show ?case by simp
next
  case (Cons r rs)
  have step: "distinct (map fst (perRule (snd (checkRule e c r w))))"
    using Cons.prems by (simp add: cr_keys)
  show ?case
  proof (cases "fst (checkRule e c r w)")
    case (Inl err)
    then show ?thesis
      using step by (simp add: split_beta)
  next
    case (Inr u)
    then show ?thesis
      using Cons.IH [OF step] by (simp add: split_beta)
  qed
qed

lemma crs_append:
  "checkRules e c (pre @ rs) w =
     (case checkRules e c pre w of
        (Inl err, w1) \<Rightarrow> (Inl err, w1)
      | (Inr u, w1) \<Rightarrow> checkRules e c rs w1)"
  by (induction pre arbitrary: w) (simp_all split: prod.splits sum.splits)


subsection \<open>Checking one scope\<close>

lemma an_fields [simp]:
  "contexts (announce e cfg c w) = contexts w"
  "perRule (announce e cfg c w) = perRule w"
  "packagesChecked (announce e cfg c w) = packagesChecked w"
  "ticks (announce e cfg c w) = ticks w"
  "ruleEvents (trace (announce e cfg c w)) = ruleEvents (trace w)"
  "finishedScopes (trace (announce e cfg c w)) = finishedScopes (trace w)"
  by (simp_all add: announce_def emit_def)

lemma an_extends: "extends scopeEvent w (announce e cfg c w)"
  by (simp add: announce_def extends_emit extends_refl)

lemma an_skip: "fst (shouldSkipPackage e c r (announce e' cfg c' w)) = fst (shouldSkipPackage e c r w)"
  by (rule ssp_fst_cong) simp_all

lemma fin_fields [simp]:
  "perRule (finish c w) = perRule w"
  "packagesChecked (finish c w) = packagesChecked w"
  "ticks (finish c w) = ticks w"
  "trace (finish c w) = trace w @ [Finish c]"
  by (simp_all add: finish_def Let_def emit_def)

lemma fin_contexts:
  "contexts (finish c w) =
     (contexts w)[getWorkspaceContext w c :=
        (contexts w ! getWorkspaceContext w c)
          \<lparr>failed := failed (contexts w ! getWorkspaceContext w c) \<or> failed (contexts w ! c)\<rparr>]"
  by (simp add: finish_def Let_def emit_def)

lemma cp_fst:
  "fst (checkPackage e cfg c w) = fst (checkRules e c (rules cfg) (announce e cfg c w))"
  by (simp add: checkPackage_def split: prod.splits sum.splits)

lemma cp_snd_ok:
  "fst (checkPackage e cfg c w) = Inr u \<Longrightarrow>
   snd (checkPackage e cfg c w) = finish c (snd (checkRules e c (rules cfg) (announce e cfg c w)))"
  by (simp add: checkPackage_def split: prod.splits sum.splits)

lemma cp_snd_err:
  "fst (checkPackage e cfg c w) = Inl err \<Longrightarrow>
   snd (checkPackage e cfg c w) = snd (checkRules e c (rules cfg) (announce e cfg c w))"
  by (simp add: checkPackage_def split: prod.splits sum.splits)

lemmas run_defs = checkPackage_def announce_def checkRule_def beginStats_def endStats_def
  awaitCheck_def callCheck_def shouldSkipPackage_def finish_def getWorkspaceContext_def
  getName_def bucketOf_def ruleName_def falsy_def Let_def prim_defs

section \<open>Checking one scope\<close>

text \<open>
  C3. Within one scope the rules run one after the other in the order of the
  configuration: in the trace of a completed \<open>checkPackage\<close>, the calls of the check
  operations are those of the rules that are not skipped, in that order, each followed by
  its completion before the next one starts, and \<open>finish()\<close> is called once, after all
  of them.
\<close>

theorem checkPackage_sequential:
  assumes "fst (checkPackage e cfg c w) = Inr u"
  shows "ruleEvents (trace (snd (checkPackage e cfg c w))) =
           ruleEvents (trace w) @
           concat (map (\<lambda>r. [CheckStart c (rule_id r), CheckEnd c (rule_id r)])
                     (filter (\<lambda>r. \<not> fst (shouldSkipPackage e c r w)) (rules cfg))) @
           [Finish c]"
proof -
  have ok: "fst (checkRules e c (rules cfg) (announce e cfg c w)) = Inr u"
    using assms by (simp add: cp_fst)
  show ?thesis
    by (simp add: cp_snd_ok [OF assms] crs_ruleEvents [OF ok] an_skip)
qed

theorem checkPackage_sequential_witness:
  "fst (checkPackage ex_env ex_config3 1 ex_world) = Inr ()
   \<and> ruleEvents (trace (snd (checkPackage ex_env ex_config3 1 ex_world))) =
       [CheckStart 1 ''a'', CheckEnd 1 ''a'', CheckStart 1 ''b'', CheckEnd 1 ''b'', Finish 1]"
proof -
  have h: "fst (checkPackage ex_env ex_config3 1 ex_world) = Inr ()"
    by (simp add: run_defs ex_defs)
  have s: "filter (\<lambda>r. \<not> fst (shouldSkipPackage ex_env 1 r ex_world)) (rules ex_config3) = [ruleA, ruleB]"
    by (simp add: run_defs ex_defs)
  have i: "rule_id ruleA = ''a''" "rule_id ruleB = ''b''" "ruleEvents (trace ex_world) = []"
    by (simp_all add: ex_defs)
  show ?thesis
    using checkPackage_sequential [OF h] h s i
    by simp
qed

text \<open>
  C9. With a clock that never goes back, no bucket's \<open>totalTime\<close> decreases over an
  iteration of the loop over the rules, skipped or not: the bucket of the rule gains the
  end timestamp minus the start timestamp, and every other bucket is unchanged.
\<close>

theorem totalTime_never_decreases:
  assumes mono: "\<forall>i j. i \<le> j \<longrightarrow> hrtime e i \<le> hrtime e j"
    and ok: "fst (checkRule e c r w) = Inr u"
  shows "totalTime (bucketOf (perRule (snd (checkRule e c r w))) k) =
           totalTime (bucketOf (perRule w) k) +
             (if k = ruleName r
              then hrtime e (ticks (snd (checkRule e c r w)) - 1) - hrtime e (ticks w) else 0)
       \<and> totalTime (bucketOf (perRule w) k) \<le> totalTime (bucketOf (perRule (snd (checkRule e c r w))) k)"
proof -
  let ?w' = "snd (checkRule e c r w)"
  have eq: "totalTime (bucketOf (perRule ?w') k) =
           totalTime (bucketOf (perRule w) k) +
             (if k = ruleName r then hrtime e (ticks ?w' - 1) - hrtime e (ticks w) else 0)"
    by (simp add: cr_perRule_ok [OF ok])
  have "ticks w \<le> ticks ?w' - 1"
    using cr_ticks [OF ok] by simp
  then have "hrtime e (ticks w) \<le> hrtime e (ticks ?w' - 1)"
    using mono by blast
  then show ?thesis
    using eq by simp
qed

theorem totalTime_never_decreases_witness:
  "fst (checkRule ex_env 1 ruleB ex_world2) = Inr ()
   \<and> totalTime (bucketOf (perRule ex_world2) ''unknown'') = 250
   \<and> totalTime (bucketOf (perRule (snd (checkRule ex_env 1 ruleB ex_world2))) ''unknown'') = 750"
proof -
  have m: "\<forall>i j. i \<le> j \<longrightarrow> hrtime ex_env i \<le> hrtime ex_env j"
    by (simp add: ex_env_def)
  have h: "fst (checkRule ex_env 1 ruleB ex_world2) = Inr ()"
    by (simp add: run_defs ex_defs)
  have t: "ticks (snd (checkRule ex_env 1 ruleB ex_world2)) = 9"
    by (simp add: run_defs ex_defs)
  have i: "ruleName ruleB = ''unknown''" "totalTime (bucketOf (perRule ex_world2) ''unknown'') = 250"
    "hrtime ex_env 8 = 800" "ticks ex_world2 = 3" "hrtime ex_env 3 = 300"
    by (simp_all add: run_defs ex_defs)
  show ?thesis
    using totalTime_never_decreases [OF m h, of "''unknown''"] h t i
    by simp
qed

text \<open>
  C10. When the check operation of a rule throws, \<open>checkPackage\<close> fails with that
  exception, in the state in which the iteration of that rule stopped: no later rule is
  processed, \<open>finish()\<close> is not called and the store is left as it was, and the bucket
  of the rule keeps its execution count incremented and its \<open>totalTime\<close> decremented by
  the start timestamp.
\<close>

theorem checkPackage_throw:
  assumes cfg: "rules cfg = pre @ r # post"
    and pre: "checkRules e c pre (announce e cfg c w) = (Inr (), w1)"
    and skip: "\<not> fst (shouldSkipPackage e c r w)"
    and throw: "callCheck r w1 c = Throw"
  shows "fst (checkPackage e cfg c w) = Inl (CheckThrew (rule_id r))
       \<and> snd (checkPackage e cfg c w) = snd (checkRule e c r w1)
       \<and> ruleEvents (trace (snd (checkPackage e cfg c w))) =
           ruleEvents (trace w1) @ [CheckStart c (rule_id r)]
       \<and> finishedScopes (trace (snd (checkPackage e cfg c w))) = finishedScopes (trace w)
       \<and> contexts (snd (checkPackage e cfg c w)) = contexts w1
       \<and> totalTime (bucketOf (perRule (snd (checkPackage e cfg c w))) (ruleName r)) =
           totalTime (bucketOf (perRule w1) (ruleName r)) - hrtime e (ticks w1)
       \<and> executions (bucketOf (perRule (snd (checkPackage e cfg c w))) (ruleName r)) =
           executions (bucketOf (perRule w1) (ruleName r)) + 1"
proof -
  let ?w0 = "announce e cfg c w"
  have w1: "w1 = snd (checkRules e c pre ?w0)"
    using pre by simp
  have m: "marks c ?w0 w1"
    unfolding w1 by (rule crs_marks)
  have skip1: "\<not> fst (shouldSkipPackage e c r w1)"
    using skip marks_skip [OF m] by (simp add: an_skip)
  have one: "fst (checkRule e c r w1) = Inl (CheckThrew (rule_id r))"
    using skip1 throw by (simp add: cr_fst)
  have all: "checkRules e c (rules cfg) ?w0 = checkRule e c r w1"
    using one by (cases "checkRule e c r w1") (simp add: cfg crs_append pre)
  have res: "fst (checkPackage e cfg c w) = Inl (CheckThrew (rule_id r))"
    by (simp add: cp_fst all one)
  have st: "snd (checkPackage e cfg c w) = snd (checkRule e c r w1)"
    by (simp add: cp_snd_err [OF res] all)
  have "finishedScopes (trace (snd (checkRule e c r w1))) = finishedScopes (trace w1)"
    by (rule extends_finishedScopes) (rule cr_extends)
  also have "\<dots> = finishedScopes (trace ?w0)"
    unfolding w1 by (rule extends_finishedScopes) (rule crs_extends)
  finally have fin: "finishedScopes (trace (snd (checkRule e c r w1))) = finishedScopes (trace w)"
    by simp
  show ?thesis
    using skip1 throw
    by (simp add: res st fin cr_ruleEvents cr_contexts cr_perRule_throw [OF one])
qed

theorem checkPackage_throw_witness:
  "rules ex_config_throw = [ruleA] @ ruleThrows # [ruleB]
   \<and> fst (checkRules ex_env 1 [ruleA] (announce ex_env ex_config_throw 1 ex_world)) = Inr ()
   \<and> \<not> fst (shouldSkipPackage ex_env 1 ruleThrows ex_world)
   \<and> fst (checkPackage ex_env ex_config_throw 1 ex_world) = Inl (CheckThrew ''t'')
   \<and> ruleEvents (trace (snd (checkPackage ex_env ex_config_throw 1 ex_world))) =
       [CheckStart 1 ''a'', CheckEnd 1 ''a'', CheckStart 1 ''t'']
   \<and> finishedScopes (trace (snd (checkPackage ex_env ex_config_throw 1 ex_world))) = []
   \<and> totalTime (bucketOf (perRule (snd (checkPackage ex_env ex_config_throw 1 ex_world))) ''ruleT'') = - 900
   \<and> executions (bucketOf (perRule (snd (checkPackage ex_env ex_config_throw 1 ex_world))) ''ruleT'') = 1"
proof -
  define w1 where "w1 = snd (checkRules ex_env 1 [ruleA] (announce ex_env ex_config_throw 1 ex_world))"
  have c: "rules ex_config_throw = [ruleA] @ ruleThrows # [ruleB]"
    by (simp add: ex_config_throw_def)
  have f: "fst (checkRules ex_env 1 [ruleA] (announce ex_env ex_config_throw 1 ex_world)) = Inr ()"
    by (simp add: run_defs ex_defs)
  then have p: "checkRules ex_env 1 [ruleA] (announce ex_env ex_config_throw 1 ex_world) = (Inr (), w1)"
    by (simp add: prod_eq_iff w1_def)
  have s: "\<not> fst (shouldSkipPackage ex_env 1 ruleThrows ex_world)"
    by (simp add: run_defs ex_defs)
  have t: "callCheck ruleThrows w1 1 = Throw"
    by (simp add: callCheck_def ruleThrows_def)
  have w1: "ruleEvents (trace w1) = [CheckStart 1 ''a'', CheckEnd 1 ''a'']"
    "totalTime (bucketOf (perRule w1) ''ruleT'') = 0"
    "executions (bucketOf (perRule w1) ''ruleT'') = 0"
    "ticks w1 = 9" "ruleName ruleThrows = ''ruleT''" "rule_id ruleThrows = ''t''"
    "finishedScopes (trace ex_world) = []" "hrtime ex_env 9 = 900"
    by (simp_all add: w1_def run_defs ex_defs)
  show ?thesis
    using checkPackage_throw [OF c p s t] c f s w1
    by auto
qed

section \<open>Properties of a run\<close>

subsection \<open>Checking one scope: all outcomes\<close>

lemma extends_scope: "extends stepEvent w w' \<Longrightarrow> extends scopeEvent w w'"
proof (erule extends_weaken)
  fix ev show "stepEvent ev \<Longrightarrow> scopeEvent ev"
    by (cases ev) simp_all
qed

lemma cnt_fields [simp]:
  "contexts (countPackage w) = contexts w"
  "perRule (countPackage w) = perRule w"
  "packagesChecked (countPackage w) = packagesChecked w + 1"
  "ticks (countPackage w) = ticks w"
  "trace (countPackage w) = trace w"
  by (simp_all add: countPackage_def)

lemma cp_extends: "extends scopeEvent w (snd (checkPackage e cfg c w))"
proof -
  let ?w0 = "announce e cfg c w"
  let ?w1 = "snd (checkRules e c (rules cfg) ?w0)"
  have 1: "extends scopeEvent w ?w1"
    using an_extends extends_scope [OF crs_extends] by (rule extends_trans)
  have 2: "extends scopeEvent w (finish c ?w1)"
    using 1 by (rule extends_trans) (simp add: extends_def)
  show ?thesis
  proof (cases "fst (checkPackage e cfg c w)")
    case (Inl err)
    then show ?thesis using 1 by (simp add: cp_snd_err)
  next
    case (Inr u)
    then show ?thesis using 2 by (simp add: cp_snd_ok)
  qed
qed

lemma cp_packagesChecked [simp]:
  "packagesChecked (snd (checkPackage e cfg c w)) = packagesChecked w"
  by (cases "fst (checkPackage e cfg c w)") (simp_all add: cp_snd_err cp_snd_ok)

lemma cp_finished:
  "fst (checkPackage e cfg c w) = Inr u \<Longrightarrow>
   finishedScopes (trace (snd (checkPackage e cfg c w))) = finishedScopes (trace w) @ [c]"
proof -
  assume ok: "fst (checkPackage e cfg c w) = Inr u"
  have "finishedScopes (trace (snd (checkRules e c (rules cfg) (announce e cfg c w)))) =
          finishedScopes (trace (announce e cfg c w))"
    by (rule extends_finishedScopes) (rule crs_extends)
  then show ?thesis
    by (simp add: cp_snd_ok [OF ok])
qed

lemma cp_perRule:
  "fst (checkPackage e cfg c w) = Inr u \<Longrightarrow>
   perRule (snd (checkPackage e cfg c w)) = perRule (snd (checkRules e c (rules cfg) (announce e cfg c w)))"
  by (simp add: cp_snd_ok)

subsection \<open>The statistics between two scopes\<close>

lemma cr_positive:
  assumes "list_all (\<lambda>kv. 0 < executions (snd kv)) (perRule w)"
  shows "list_all (\<lambda>kv. 0 < executions (snd kv)) (perRule (snd (checkRule e c r w)))"
proof -
  have b: "0 \<le> executions (bucketOf (perRule w) (ruleName r))"
    using assms
    by (auto simp: bucketOf_def list_all_iff split: option.splits dest!: map_of_SomeD)
  have u: "list_all (\<lambda>kv. 0 < executions (snd kv)) (AList.update k d m)"
    if "list_all (\<lambda>kv. 0 < executions (snd kv)) m" and "0 < executions d" for k d m
    using that by (induction m) auto
  show ?thesis
  proof (cases "fst (checkRule e c r w)")
    case (Inl err)
    then show ?thesis
      using b assms by (simp add: cr_perRule_throw u)
  next
    case (Inr x)
    then show ?thesis
      using b assms by (simp add: cr_perRule_ok u)
  qed
qed

lemma crs_positive:
  "list_all (\<lambda>kv. 0 < executions (snd kv)) (perRule w) \<Longrightarrow>
   list_all (\<lambda>kv. 0 < executions (snd kv)) (perRule (snd (checkRules e c rs w)))"
proof (induction rs arbitrary: w)
  case Nil
  then show ?case by simp
next
  case (Cons r rs)
  note step = cr_positive [OF Cons.prems, of e c r]
  show ?case
  proof (cases "fst (checkRule e c r w)")
    case (Inl err)
    then show ?thesis using step by (simp add: split_beta)
  next
    case (Inr u)
    then show ?thesis using Cons.IH [OF step] by (simp add: split_beta)
  qed
qed

lemma cp_statsInv:
  assumes inv: "statsInv cfg w" and ok: "fst (checkPackage e cfg c w') = Inr u"
    and same: "perRule w' = perRule w" "packagesChecked w' = packagesChecked w + 1"
      "trace w' = trace w"
  shows "statsInv cfg (snd (checkPackage e cfg c w'))"
proof -
  let ?w0 = "announce e cfg c w'"
  let ?w1 = "snd (checkRules e c (rules cfg) ?w0)"
  let ?w2 = "snd (checkPackage e cfg c w')"
  have ok1: "fst (checkRules e c (rules cfg) ?w0) = Inr u"
    using ok by (simp add: cp_fst)
  have p: "perRule ?w2 = perRule ?w1"
    by (rule cp_perRule [OF ok])
  have s: "sumExecutions (perRule ?w1) = sumExecutions (perRule w) + int (length (rules cfg))"
    using crs_sumExecutions [OF ok1] by (simp add: same)
  have k: "fst ` set (perRule ?w1) \<subseteq> fst ` set (perRule w) \<union> ruleName ` set (rules cfg)"
    using crs_keys [of e c "rules cfg" ?w0] by (simp add: same)
  have d: "distinct (map fst (perRule ?w1))"
    using inv by (intro crs_distinct) (simp add: same statsInv_def)
  have q: "list_all (\<lambda>kv. 0 < executions (snd kv)) (perRule ?w1)"
    using inv by (intro crs_positive) (simp add: same statsInv_def)
  have f: "finishedScopes (trace ?w2) = finishedScopes (trace w) @ [c]"
    using cp_finished [OF ok] by (simp add: same)
  have n: "packagesChecked ?w2 = packagesChecked w + 1"
    by (simp add: same)
  have 1: "sumExecutions (perRule ?w2) = packagesChecked ?w2 * int (length (rules cfg))"
    using inv by (simp add: p s same statsInv_def algebra_simps)
  have 2: "packagesChecked ?w2 = int (length (finishedScopes (trace ?w2)))"
    using inv by (simp add: same f statsInv_def)
  have 3: "fst ` set (perRule ?w2) \<subseteq> ruleName ` set (rules cfg)"
    using inv k unfolding p statsInv_def by blast
  show ?thesis
    unfolding statsInv_def using 1 2 3 d q by (simp add: p)
qed

lemma cw_statsInv:
  "statsInv cfg w \<Longrightarrow> fst (checkWorkspace e cfg w) = Inr u \<Longrightarrow>
   statsInv cfg (snd (checkWorkspace e cfg w))"
  unfolding checkWorkspace_def by (rule cp_statsInv) simp_all

lemma checkChild_alt:
  "checkChild e cfg p w =
     checkPackage e cfg (length (contexts w)) (snd (createChildContext p (countPackage w)))"
  by (simp add: checkChild_def createChildContext_def)

lemma ccc_fields [simp]:
  "contexts (snd (createChildContext p w)) =
     contexts w @ [\<lparr>packageDir = p, failed = False, parent = Some 0\<rparr>]"
  "perRule (snd (createChildContext p w)) = perRule w"
  "packagesChecked (snd (createChildContext p w)) = packagesChecked w"
  "ticks (snd (createChildContext p w)) = ticks w"
  "trace (snd (createChildContext p w)) = trace w"
  by (simp_all add: createChildContext_def)

lemma cc_statsInv:
  "statsInv cfg w \<Longrightarrow> fst (checkChild e cfg p w) = Inr u \<Longrightarrow>
   statsInv cfg (snd (checkChild e cfg p w))"
  unfolding checkChild_alt by (rule cp_statsInv) simp_all

lemma cw_extends: "extends scopeEvent w (snd (checkWorkspace e cfg w))"
  unfolding checkWorkspace_def
  by (rule extends_trans [OF _ cp_extends]) (simp add: extends_refl countPackage_def)

lemma cc_extends: "extends scopeEvent w (snd (checkChild e cfg p w))"
  unfolding checkChild_alt
  by (rule extends_trans [OF _ cp_extends]) (simp add: extends_refl)

subsection \<open>The store between two scopes\<close>

lemma marks_form:
  "marks c w w' \<Longrightarrow>
   \<exists>b. contexts w' = (contexts w)[c := (contexts w ! c)\<lparr>failed := failed (contexts w ! c) \<or> b\<rparr>]"
proof -
  assume "marks c w w'"
  then consider "contexts w' = contexts w"
    | "contexts w' = (contexts w)[c := (contexts w ! c)\<lparr>failed := True\<rparr>]"
    by (auto simp: marks_def)
  then show ?thesis
  proof cases
    case 1
    then have "contexts w' = (contexts w)[c := (contexts w ! c)\<lparr>failed := failed (contexts w ! c) \<or> False\<rparr>]"
      by simp
    then show ?thesis ..
  next
    case 2
    then have "contexts w' = (contexts w)[c := (contexts w ! c)\<lparr>failed := failed (contexts w ! c) \<or> True\<rparr>]"
      by simp
    then show ?thesis ..
  qed
qed

lemma cp_contexts:
  assumes ok: "fst (checkPackage e cfg c w) = Inr u"
  shows "\<exists>b. contexts (snd (checkPackage e cfg c w)) =
           (let xs = (contexts w)[c := (contexts w ! c)\<lparr>failed := failed (contexts w ! c) \<or> b\<rparr>];
                g = (case parent (xs ! c) of None \<Rightarrow> c | Some p \<Rightarrow> p)
            in xs[g := (xs ! g)\<lparr>failed := failed (xs ! g) \<or> failed (xs ! c)\<rparr>])"
proof -
  let ?w1 = "snd (checkRules e c (rules cfg) (announce e cfg c w))"
  have "marks c (announce e cfg c w) ?w1"
    by (rule crs_marks)
  from marks_form [OF this] obtain b where
    b: "contexts ?w1 = (contexts w)[c := (contexts w ! c)\<lparr>failed := failed (contexts w ! c) \<or> b\<rparr>]"
    by auto
  have "contexts (snd (checkPackage e cfg c w)) =
           (let xs = (contexts w)[c := (contexts w ! c)\<lparr>failed := failed (contexts w ! c) \<or> b\<rparr>];
                g = (case parent (xs ! c) of None \<Rightarrow> c | Some p \<Rightarrow> p)
            in xs[g := (xs ! g)\<lparr>failed := failed (xs ! g) \<or> failed (xs ! c)\<rparr>])"
    by (simp add: cp_snd_ok [OF ok] fin_contexts getWorkspaceContext_def b Let_def)
  then show ?thesis ..
qed

lemma tl_update_0: "tl (xs[0 := y]) = tl xs"
  by (cases xs) simp_all

lemma tl_update_0_snoc: "xs \<noteq> [] \<Longrightarrow> tl (xs[0 := y] @ [z]) = tl xs @ [z]"
  by (cases xs) simp_all

lemma cw_storeInv:
  assumes inv: "storeInv w" and ok: "fst (checkWorkspace e cfg w) = Inr u"
  shows "storeInv (snd (checkWorkspace e cfg w))"
proof -
  let ?w2 = "snd (checkPackage e cfg 0 (countPackage w))"
  have ok': "fst (checkPackage e cfg 0 (countPackage w)) = Inr u"
    using ok by (simp add: checkWorkspace_def)
  from inv have ne: "contexts w \<noteq> []" and par: "parent (contexts w ! 0) = None"
    by (simp_all add: storeInv_def)
  from cp_contexts [OF ok'] obtain b where
    "contexts ?w2 =
           (let xs = (contexts w)[0 := (contexts w ! 0)\<lparr>failed := failed (contexts w ! 0) \<or> b\<rparr>];
                g = (case parent (xs ! 0) of None \<Rightarrow> 0 | Some p \<Rightarrow> p)
            in xs[g := (xs ! g)\<lparr>failed := failed (xs ! g) \<or> failed (xs ! 0)\<rparr>])"
    by auto
  then have cs: "contexts ?w2 = (contexts w)[0 := (contexts w ! 0)\<lparr>failed := failed (contexts w ! 0) \<or> b\<rparr>]"
    using ne par by (simp add: Let_def)
  have fs: "finishedScopes (trace ?w2) = finishedScopes (trace w) @ [0]"
    using cp_finished [OF ok'] by simp
  have nth: "contexts ?w2 ! c = (if c = 0 then (contexts w ! 0)\<lparr>failed := failed (contexts w ! 0) \<or> b\<rparr>
                                 else contexts w ! c)" for c
    using ne by (simp add: cs nth_list_update_total)
  have tl: "tl (contexts ?w2) = tl (contexts w)"
    unfolding cs by (rule tl_update_0)
  have len: "length (contexts ?w2) = length (contexts w)"
    unfolding cs by simp
  have 1: "contexts ?w2 \<noteq> []"
    using ne len by (metis length_0_conv)
  have 2: "parent (contexts ?w2 ! 0) = None"
    using par by (simp add: nth)
  have 3: "list_all (\<lambda>c. parent c = Some 0) (tl (contexts ?w2))"
    using inv by (simp add: tl storeInv_def)
  have 4: "list_all (\<lambda>c. c < length (contexts ?w2)) (finishedScopes (trace ?w2))"
    using inv ne by (simp add: fs len storeInv_def)
  have 5: "failed (contexts ?w2 ! 0) = list_ex (\<lambda>c. failed (contexts ?w2 ! c)) (finishedScopes (trace ?w2))"
    using inv by (auto simp: fs nth storeInv_def list_ex_iff)
  have "storeInv ?w2"
    unfolding storeInv_def using 1 2 3 4 5 by blast
  then show ?thesis
    by (simp add: checkWorkspace_def)
qed

lemma cc_storeInv:
  assumes inv: "storeInv w" and ok: "fst (checkChild e cfg p w) = Inr u"
  shows "storeInv (snd (checkChild e cfg p w))"
proof -
  let ?n = "length (contexts w)"
  let ?w' = "snd (createChildContext p (countPackage w))"
  let ?w2 = "snd (checkPackage e cfg ?n ?w')"
  have ok': "fst (checkPackage e cfg ?n ?w') = Inr u"
    using ok by (simp add: checkChild_alt)
  from inv have ne: "contexts w \<noteq> []" and par: "parent (contexts w ! 0) = None"
    by (simp_all add: storeInv_def)
  then have n0: "0 < ?n" by simp
  from cp_contexts [OF ok'] obtain b where
    "contexts ?w2 =
           (let xs = (contexts ?w')[?n := (contexts ?w' ! ?n)\<lparr>failed := failed (contexts ?w' ! ?n) \<or> b\<rparr>];
                g = (case parent (xs ! ?n) of None \<Rightarrow> ?n | Some p \<Rightarrow> p)
            in xs[g := (xs ! g)\<lparr>failed := failed (xs ! g) \<or> failed (xs ! ?n)\<rparr>])"
    by auto
  then have cs: "contexts ?w2 =
      (contexts w)[0 := (contexts w ! 0)\<lparr>failed := failed (contexts w ! 0) \<or> b\<rparr>]
        @ [\<lparr>packageDir = p, failed = b, parent = Some 0\<rparr>]"
    using n0 by (simp add: Let_def nth_append list_update_append)
  have fs: "finishedScopes (trace ?w2) = finishedScopes (trace w) @ [?n]"
    using cp_finished [OF ok'] by simp
  have nth: "contexts ?w2 ! c =
      (if c = 0 then (contexts w ! 0)\<lparr>failed := failed (contexts w ! 0) \<or> b\<rparr>
       else if c < ?n then contexts w ! c
       else if c = ?n then \<lparr>packageDir = p, failed = b, parent = Some 0\<rparr>
       else contexts ?w2 ! c)" for c
    using n0 by (auto simp: cs nth_append nth_list_update_total)
  have tl: "tl (contexts ?w2) = tl (contexts w) @ [\<lparr>packageDir = p, failed = b, parent = Some 0\<rparr>]"
    unfolding cs using ne by (rule tl_update_0_snoc)
  have len: "length (contexts ?w2) = Suc ?n"
    unfolding cs by simp
  have 1: "contexts ?w2 \<noteq> []"
    using len by (metis length_0_conv nat.distinct(1))
  have 2: "parent (contexts ?w2 ! 0) = None"
    using par by (simp add: nth)
  have 3: "list_all (\<lambda>c. parent c = Some 0) (tl (contexts ?w2))"
    using inv by (simp add: tl storeInv_def)
  have 4: "list_all (\<lambda>c. c < length (contexts ?w2)) (finishedScopes (trace ?w2))"
    using inv by (auto simp: fs len storeInv_def list_all_iff)
  have 5: "failed (contexts ?w2 ! 0) = list_ex (\<lambda>c. failed (contexts ?w2 ! c)) (finishedScopes (trace ?w2))"
    using inv n0 by (auto simp: fs nth storeInv_def list_ex_iff list_all_iff)
  have "storeInv ?w2"
    unfolding storeInv_def using 1 2 3 4 5 by blast
  then show ?thesis
    by (simp add: checkChild_alt)
qed

subsection \<open>The loops over the target scopes\<close>

lemma checkPaths_preserves:
  assumes root: "\<And>w u. P w \<Longrightarrow> fst (checkWorkspace e cfg w) = Inr u \<Longrightarrow> P (snd (checkWorkspace e cfg w))"
    and child: "\<And>w p u. P w \<Longrightarrow> fst (checkChild e cfg p w) = Inr u \<Longrightarrow> P (snd (checkChild e cfg p w))"
  shows "P w \<Longrightarrow> fst (checkPaths e cfg wd ps w) = Inr u \<Longrightarrow> P (snd (checkPaths e cfg wd ps w))"
proof (induction ps arbitrary: w)
  case Nil
  then show ?case by simp
next
  case (Cons p ps)
  let ?step = "if wd = p then checkWorkspace e cfg w else checkChild e cfg p w"
  from Cons.prems(2) have ok: "fst ?step = Inr ()"
    and rest: "fst (checkPaths e cfg wd ps (snd ?step)) = Inr u"
    by (simp_all add: split_beta split: sum.splits if_splits)
  have "P (snd ?step)"
    using Cons.prems(1) ok root child by (simp split: if_splits)
  from Cons.IH [OF this rest] show ?case
    using ok by (simp add: split_beta split: if_splits)
qed

lemma checkPackageDirs_preserves:
  assumes child: "\<And>w p u. P w \<Longrightarrow> fst (checkChild e cfg p w) = Inr u \<Longrightarrow> P (snd (checkChild e cfg p w))"
  shows "P w \<Longrightarrow> fst (checkPackageDirs e cfg ds w) = Inr u \<Longrightarrow> P (snd (checkPackageDirs e cfg ds w))"
proof (induction ds arbitrary: w)
  case Nil
  then show ?case by simp
next
  case (Cons d ds)
  from Cons.prems(2) have ok: "fst (checkChild e cfg d w) = Inr ()"
    and rest: "fst (checkPackageDirs e cfg ds (snd (checkChild e cfg d w))) = Inr u"
    by (simp_all add: split_beta split: sum.splits)
  have "P (snd (checkChild e cfg d w))"
    using Cons.prems(1) ok by (rule child)
  from Cons.IH [OF this rest] show ?case
    using ok by (simp add: split_beta)
qed

lemma checkTargets_preserves:
  assumes root: "\<And>w u. P w \<Longrightarrow> fst (checkWorkspace e cfg w) = Inr u \<Longrightarrow> P (snd (checkWorkspace e cfg w))"
    and child: "\<And>w p u. P w \<Longrightarrow> fst (checkChild e cfg p w) = Inr u \<Longrightarrow> P (snd (checkChild e cfg p w))"
    and inv: "P w" and ok: "fst (checkTargets e cfg wd cwd paths w) = Inr u"
  shows "P (snd (checkTargets e cfg wd cwd paths w))"
proof (cases paths)
  case (Some ps)
  then show ?thesis
    using ok checkPaths_preserves [of P e cfg w wd "map (\<lambda>p. pathDirname (pathResolve p)) ps" u] root child inv
    by (simp add: checkTargets_def)
next
  case None
  show ?thesis
  proof (cases "wd = cwd")
    case True
    with None ok have ok1: "fst (checkWorkspace e cfg w) = Inr ()"
      and rest: "fst (checkPackageDirs e cfg (getWorkspacePackageDirs e wd) (snd (checkWorkspace e cfg w))) = Inr u"
      by (simp_all add: checkTargets_def split_beta split: sum.splits)
    have "P (snd (checkWorkspace e cfg w))"
      using inv ok1 by (rule root)
    from checkPackageDirs_preserves [of P e cfg, OF child this rest] show ?thesis
      using None True ok1 by (simp add: checkTargets_def split_beta)
  next
    case False
    then show ?thesis
      using None ok child [OF inv] by (simp add: checkTargets_def)
  qed
qed

lemma checkPaths_extends: "extends scopeEvent w (snd (checkPaths e cfg wd ps w))"
proof (induction ps arbitrary: w)
  case Nil
  show ?case by (simp add: extends_refl)
next
  case (Cons p ps)
  let ?step = "if wd = p then checkWorkspace e cfg w else checkChild e cfg p w"
  have 1: "extends scopeEvent w (snd ?step)"
    by (simp add: cw_extends cc_extends)
  show ?case
  proof (cases "fst ?step")
    case (Inl err)
    then show ?thesis using 1 by (simp add: split_beta)
  next
    case (Inr u)
    then show ?thesis
      using extends_trans [OF 1 Cons.IH] by (simp add: split_beta)
  qed
qed

lemma checkPackageDirs_extends: "extends scopeEvent w (snd (checkPackageDirs e cfg ds w))"
proof (induction ds arbitrary: w)
  case Nil
  show ?case by (simp add: extends_refl)
next
  case (Cons d ds)
  show ?case
  proof (cases "fst (checkChild e cfg d w)")
    case (Inl err)
    then show ?thesis using cc_extends [of w e cfg d] by (simp add: split_beta)
  next
    case (Inr u)
    then show ?thesis
      using extends_trans [OF cc_extends Cons.IH] by (simp add: split_beta)
  qed
qed

lemma checkTargets_extends: "extends scopeEvent w (snd (checkTargets e cfg wd cwd paths w))"
proof (cases paths)
  case (Some ps)
  then show ?thesis
    by (simp add: checkTargets_def checkPaths_extends)
next
  case None
  show ?thesis
  proof (cases "wd = cwd")
    case True
    show ?thesis
    proof (cases "fst (checkWorkspace e cfg w)")
      case (Inl err)
      then show ?thesis
        using None True cw_extends [of w e cfg] by (simp add: checkTargets_def split_beta)
    next
      case (Inr u)
      then show ?thesis
        using None True extends_trans [OF cw_extends checkPackageDirs_extends]
        by (simp add: checkTargets_def split_beta)
    qed
  next
    case False
    then show ?thesis
      using None by (simp add: checkTargets_def cc_extends)
  qed
qed

subsection \<open>Validation\<close>

lemma vr_fields [simp]:
  "contexts (snd (validateRules rs w)) = contexts w"
  "perRule (snd (validateRules rs w)) = perRule w"
  "packagesChecked (snd (validateRules rs w)) = packagesChecked w"
  "ticks (snd (validateRules rs w)) = ticks w"
  by (induction rs arbitrary: w) (simp_all add: Let_def emit_def)

lemma vr_ok:
  "list_all (\<lambda>r. optionsRuntype r (options r)) rs \<Longrightarrow>
   fst (validateRules rs w) = Inr ()
   \<and> trace (snd (validateRules rs w)) = trace w @ map (\<lambda>r. Validate (rule_id r)) rs"
  by (induction rs arbitrary: w) (simp_all add: Let_def emit_def)

lemma vr_fail:
  "List.find (\<lambda>r. \<not> optionsRuntype r (options r)) rs = Some r0 \<Longrightarrow>
   fst (validateRules rs w) = Inl (OptionsInvalid (rule_id r0))
   \<and> trace (snd (validateRules rs w)) =
       trace w @ map (\<lambda>r. Validate (rule_id r)) (takeWhile (\<lambda>r. optionsRuntype r (options r)) rs)
         @ [Validate (rule_id r0)]"
  by (induction rs arbitrary: w) (auto simp: Let_def emit_def)

lemma vr_ok_iff:
  "fst (validateRules rs w) = Inr u \<longleftrightarrow> list_all (\<lambda>r. optionsRuntype r (options r)) rs"
  by (induction rs arbitrary: w) (simp_all add: Let_def)

subsection \<open>The report\<close>

lemma prs_fields [simp]:
  "contexts (printRuleStats rs ex w) = contexts w"
  "perRule (printRuleStats rs ex w) = perRule w"
  "packagesChecked (printRuleStats rs ex w) = packagesChecked w"
  "ticks (printRuleStats rs ex w) = ticks w"
  by (induction rs arbitrary: ex w) (simp_all add: emit_def split: option.splits)

lemma prs_extends: "extends reportEvent w (printRuleStats rs ex w)"
proof (induction rs arbitrary: ex w)
  case Nil
  show ?case by (simp add: extends_refl)
next
  case (Cons r rs)
  show ?case
  proof (cases "printStats r")
    case None
    then show ?thesis using Cons.IH by simp
  next
    case (Some f)
    have "extends reportEvent w (printRuleStats rs (insert f ex) (emit (RulePrintStats f) w))"
      by (rule extends_trans [OF extends_emit Cons.IH]) simp
    then show ?thesis
      using Some Cons.IH by simp
  qed
qed

lemma printStatsCalls_append [simp]:
  "printStatsCalls (s @ t) = printStatsCalls s @ printStatsCalls t"
  by (induction s rule: printStatsCalls.induct) simp_all

lemma prs_calls:
  "\<exists>new. printStatsCalls (trace (printRuleStats rs ex w)) = printStatsCalls (trace w) @ new
        \<and> distinct new
        \<and> set new = {f. \<exists>r\<in>set rs. printStats r = Some f} - ex"
proof (induction rs arbitrary: ex w)
  case Nil
  show ?case by simp
next
  case (Cons r rs)
  show ?case
  proof (cases "printStats r")
    case None
    from Cons.IH [of ex w] obtain new where
      "printStatsCalls (trace (printRuleStats rs ex w)) = printStatsCalls (trace w) @ new"
      "distinct new" "set new = {f. \<exists>r\<in>set rs. printStats r = Some f} - ex"
      by blast
    then have "printStatsCalls (trace (printRuleStats (r # rs) ex w)) = printStatsCalls (trace w) @ new
        \<and> distinct new \<and> set new = {f. \<exists>r\<in>set (r # rs). printStats r = Some f} - ex"
      using None by auto
    then show ?thesis ..
  next
    case (Some f)
    show ?thesis
    proof (cases "f \<in> ex")
      case True
      from Cons.IH [of ex w] obtain new where
        "printStatsCalls (trace (printRuleStats rs ex w)) = printStatsCalls (trace w) @ new"
        "distinct new" "set new = {f. \<exists>r\<in>set rs. printStats r = Some f} - ex"
        by blast
      then have "printStatsCalls (trace (printRuleStats (r # rs) ex w)) = printStatsCalls (trace w) @ new
          \<and> distinct new \<and> set new = {f. \<exists>r\<in>set (r # rs). printStats r = Some f} - ex"
        using Some True by auto
      then show ?thesis ..
    next
      case False
      from Cons.IH [of "insert f ex" "emit (RulePrintStats f) w"] obtain new where
        n: "printStatsCalls (trace (printRuleStats rs (insert f ex) (emit (RulePrintStats f) w))) =
           printStatsCalls (trace (emit (RulePrintStats f) w)) @ new"
        "distinct new" "set new = {f. \<exists>r\<in>set rs. printStats r = Some f} - insert f ex"
        by blast
      have "printStatsCalls (trace (printRuleStats (r # rs) ex w)) = printStatsCalls (trace w) @ (f # new)
          \<and> distinct (f # new) \<and> set (f # new) = {f. \<exists>r\<in>set (r # rs). printStats r = Some f} - ex"
        using Some False n by (auto simp: emit_def)
      then show ?thesis ..
    qed
  qed
qed

lemma hr_fields [simp]:
  "contexts (snd (hrtime_bigint e w)) = contexts w"
  "perRule (snd (hrtime_bigint e w)) = perRule w"
  "packagesChecked (snd (hrtime_bigint e w)) = packagesChecked w"
  "trace (snd (hrtime_bigint e w)) = trace w"
  "ticks (snd (hrtime_bigint e w)) = Suc (ticks w)"
  "fst (hrtime_bigint e w) = hrtime e (ticks w)"
  by (simp_all add: hrtime_bigint_def)

lemma addRows_ok:
  "list_all (\<lambda>d. executions d \<noteq> 0) bs \<Longrightarrow> \<exists>rows. addRows bs acc = Inr rows"
  by (induction bs arbitrary: acc) (simp_all add: bigint_div_def)

lemma pcr_fields [simp]:
  "contexts (snd (printCostPerRule w)) = contexts w"
  "perRule (snd (printCostPerRule w)) = perRule w"
  "packagesChecked (snd (printCostPerRule w)) = packagesChecked w"
  "ticks (snd (printCostPerRule w)) = ticks w"
  by (simp_all add: printCostPerRule_def emit_def split: sum.splits)

lemma pcr_extends: "extends reportEvent w (snd (printCostPerRule w))"
  by (simp add: printCostPerRule_def extends_emit extends_refl split: sum.splits)

lemma pcr_ok:
  assumes "list_all (\<lambda>kv. 0 < executions (snd kv)) (perRule w)"
  shows "fst (printCostPerRule w) = Inr ()"
proof -
  have "list_all (\<lambda>d. executions d \<noteq> 0) (sort_key totalTime (map snd (perRule w)))"
    using assms by (auto simp: list_all_iff)
  from addRows_ok [OF this, of "[]"] show ?thesis
    by (auto simp: printCostPerRule_def)
qed

lemma rep_alt:
  "report e cfg t0 t1 t2 t3 w =
     (if fst (printCostPerRule w) = Inr ()
      then (Inr (), printRuleStats (rules cfg) {}
              (emit (RandomStats (packagesChecked w) (t2 - t1) ((t2 - t1) * (packagesChecked w - 1)) (t3 - t0))
                 (printIncludesExcludesCosts
                    (if globHasPrintStats e then emit GlobPrintStats (snd (printCostPerRule w))
                     else snd (printCostPerRule w)))))
      else (fst (printCostPerRule w), snd (printCostPerRule w)))"
  using pcr_fields(3) [of w]
  by (cases "printCostPerRule w")
     (auto simp: report_def Let_def printIncludesExcludesCosts_def emit_def split: sum.splits)

lemma rep_fields [simp]:
  "contexts (snd (report e cfg t0 t1 t2 t3 w)) = contexts w"
  "perRule (snd (report e cfg t0 t1 t2 t3 w)) = perRule w"
  "packagesChecked (snd (report e cfg t0 t1 t2 t3 w)) = packagesChecked w"
  by (simp_all add: rep_alt printIncludesExcludesCosts_def emit_def)

lemma rep_ok:
  "list_all (\<lambda>kv. 0 < executions (snd kv)) (perRule w) \<Longrightarrow> fst (report e cfg t0 t1 t2 t3 w) = Inr ()"
  by (simp add: rep_alt pcr_ok)

lemma rep_extends: "extends reportEvent w (snd (report e cfg t0 t1 t2 t3 w))"
proof -
  let ?w1 = "snd (printCostPerRule w)"
  let ?w2 = "if globHasPrintStats e then emit GlobPrintStats ?w1 else ?w1"
  let ?w3 = "printIncludesExcludesCosts ?w2"
  let ?w4 = "emit (RandomStats (packagesChecked w) (t2 - t1) ((t2 - t1) * (packagesChecked w - 1)) (t3 - t0)) ?w3"
  have 1: "extends reportEvent w ?w1"
    by (rule pcr_extends)
  have 2: "extends reportEvent ?w1 ?w2"
    by (simp add: extends_emit extends_refl)
  have 3: "extends reportEvent ?w2 ?w3"
    unfolding printIncludesExcludesCosts_def by (rule extends_emit) simp
  have 4: "extends reportEvent ?w3 ?w4"
    by (rule extends_emit) simp
  have 5: "extends reportEvent ?w4 (printRuleStats (rules cfg) {} ?w4)"
    by (rule prs_extends)
  have "extends reportEvent w (printRuleStats (rules cfg) {} ?w4)"
    using 1 2 3 4 5 by (blast intro: extends_trans)
  then show ?thesis
    using 1 by (simp add: rep_alt)
qed

lemma rep_calls:
  assumes "fst (report e cfg t0 t1 t2 t3 w) = Inr u"
  shows "\<exists>new. printStatsCalls (trace (snd (report e cfg t0 t1 t2 t3 w))) = printStatsCalls (trace w) @ new
        \<and> distinct new
        \<and> set new = {f. \<exists>r\<in>set (rules cfg). printStats r = Some f}"
proof -
  let ?w1 = "snd (printCostPerRule w)"
  let ?w2 = "if globHasPrintStats e then emit GlobPrintStats ?w1 else ?w1"
  let ?w3 = "printIncludesExcludesCosts ?w2"
  let ?w4 = "emit (RandomStats (packagesChecked w) (t2 - t1) ((t2 - t1) * (packagesChecked w - 1)) (t3 - t0)) ?w3"
  have ok: "fst (printCostPerRule w) = Inr ()"
    using assms by (simp add: rep_alt split: if_splits)
  have "printStatsCalls (trace ?w1) = printStatsCalls (trace w)"
    by (simp add: printCostPerRule_def emit_def split: sum.splits)
  then have same: "printStatsCalls (trace ?w4) = printStatsCalls (trace w)"
    by (simp add: printIncludesExcludesCosts_def emit_def)
  from prs_calls [of "rules cfg" "{}" ?w4] show ?thesis
    using ok by (simp add: rep_alt same)
qed

lemma finishedScopes_reportEvent: "list_all reportEvent evs \<Longrightarrow> finishedScopes evs = []"
  by (induction evs rule: finishedScopes.induct) simp_all

lemma extends_report_finishedScopes:
  "extends reportEvent w w' \<Longrightarrow> finishedScopes (trace w') = finishedScopes (trace w)"
  by (auto simp: extends_iff finishedScopes_reportEvent)

lemma finishedScopes_Validate [simp]: "finishedScopes (map (\<lambda>r. Validate (f r)) rs) = []"
  by (induction rs) simp_all

lemma printStatsCalls_Validate [simp]: "printStatsCalls (map (\<lambda>r. Validate (f r)) rs) = []"
  by (induction rs) simp_all

lemma printStatsCalls_scopeEvent: "list_all scopeEvent evs \<Longrightarrow> printStatsCalls evs = []"
  by (induction evs rule: printStatsCalls.induct) simp_all

lemma extends_scope_printStatsCalls:
  "extends scopeEvent w w' \<Longrightarrow> printStatsCalls (trace w') = printStatsCalls (trace w)"
  by (auto simp: extends_iff printStatsCalls_scopeEvent)

subsection \<open>The stages of a run\<close>

lemma check_stages:
  assumes wd: "findWorkspaceDir e cwd = Some wd"
  shows "\<exists>w3 t0 t1.
     trace w3 = [] \<and> contexts w3 = [\<lparr>packageDir = wd, failed = False, parent = None\<rparr>]
     \<and> perRule w3 = [] \<and> packagesChecked w3 = 0
     \<and> check e cfg cwd paths rs w =
        (case validateRules (rules cfg) w3 of
           (Inl err, w4) \<Rightarrow> (Inl err, w4)
         | (Inr x, w4) \<Rightarrow>
             (case checkTargets e cfg wd cwd paths (snd (hrtime_bigint e w4)) of
                (Inl err, w6) \<Rightarrow> (Inl err, w6)
              | (Inr x, w6) \<Rightarrow>
                  (case (if rs then report e cfg t0 t1 (fst (hrtime_bigint e w4))
                                     (fst (hrtime_bigint e w6)) (snd (hrtime_bigint e w6))
                         else (Inr (), snd (hrtime_bigint e w6))) of
                     (Inl err, w8) \<Rightarrow> (Inl err, w8)
                   | (Inr x, w8) \<Rightarrow> (Inr (\<not> failed (contexts w8 ! 0)), w8))))"
proof -
  define w3 where "w3 = snd (hrtime_bigint e ((snd (hrtime_bigint e (newRun w)))
      \<lparr>contexts := [\<lparr>packageDir = wd, failed = False, parent = None\<rparr>]\<rparr>))"
  define t0 where "t0 = fst (hrtime_bigint e (newRun w))"
  define t1 where "t1 = fst (hrtime_bigint e ((snd (hrtime_bigint e (newRun w)))
      \<lparr>contexts := [\<lparr>packageDir = wd, failed = False, parent = None\<rparr>]\<rparr>))"
  have 1: "trace w3 = []" "contexts w3 = [\<lparr>packageDir = wd, failed = False, parent = None\<rparr>]"
    "perRule w3 = []" "packagesChecked w3 = 0"
    by (simp_all add: w3_def newRun_def)
  have 2: "check e cfg cwd paths rs w =
        (case validateRules (rules cfg) w3 of
           (Inl err, w4) \<Rightarrow> (Inl err, w4)
         | (Inr x, w4) \<Rightarrow>
             (case checkTargets e cfg wd cwd paths (snd (hrtime_bigint e w4)) of
                (Inl err, w6) \<Rightarrow> (Inl err, w6)
              | (Inr x, w6) \<Rightarrow>
                  (case (if rs then report e cfg t0 t1 (fst (hrtime_bigint e w4))
                                     (fst (hrtime_bigint e w6)) (snd (hrtime_bigint e w6))
                         else (Inr (), snd (hrtime_bigint e w6))) of
                     (Inl err, w8) \<Rightarrow> (Inl err, w8)
                   | (Inr x, w8) \<Rightarrow> (Inr (\<not> failed (contexts w8 ! 0)), w8))))"
    unfolding check_def wd w3_def t0_def t1_def
    by (auto simp: split_beta Let_def prod_eq_iff split: prod.splits sum.splits)
  show ?thesis
    using 1 2 by blast
qed

subsection \<open>A successful run\<close>

lemma check_success:
  assumes ok: "fst (check e cfg cwd paths rs w) = Inr b"
  obtains wd w5 where
    "findWorkspaceDir e cwd = Some wd"
    "list_all (\<lambda>r. optionsRuntype r (options r)) (rules cfg)"
    "trace w5 = map (\<lambda>r. Validate (rule_id r)) (rules cfg)"
    "contexts w5 = [\<lparr>packageDir = wd, failed = False, parent = None\<rparr>]"
    "perRule w5 = []" "packagesChecked w5 = 0"
    "fst (checkTargets e cfg wd cwd paths w5) = Inr ()"
    "contexts (snd (check e cfg cwd paths rs w)) = contexts (snd (checkTargets e cfg wd cwd paths w5))"
    "perRule (snd (check e cfg cwd paths rs w)) = perRule (snd (checkTargets e cfg wd cwd paths w5))"
    "packagesChecked (snd (check e cfg cwd paths rs w)) = packagesChecked (snd (checkTargets e cfg wd cwd paths w5))"
    "extends reportEvent (snd (checkTargets e cfg wd cwd paths w5)) (snd (check e cfg cwd paths rs w))"
    "b = (\<not> failed (contexts (snd (check e cfg cwd paths rs w)) ! 0))"
    "rs \<Longrightarrow> \<exists>new. printStatsCalls (trace (snd (check e cfg cwd paths rs w))) =
                  printStatsCalls (trace (snd (checkTargets e cfg wd cwd paths w5))) @ new
              \<and> distinct new \<and> set new = {f. \<exists>r\<in>set (rules cfg). printStats r = Some f}"
proof -
  from ok obtain wd where wd: "findWorkspaceDir e cwd = Some wd"
    by (cases "findWorkspaceDir e cwd") (simp_all add: check_def split_beta)
  from check_stages [OF wd, where cfg = cfg and paths = paths and rs = rs and w = w]
  obtain w3 t0 t1 where
    w3: "trace w3 = []" "contexts w3 = [\<lparr>packageDir = wd, failed = False, parent = None\<rparr>]"
      "perRule w3 = []" "packagesChecked w3 = 0"
    and unfold: "check e cfg cwd paths rs w =
        (case validateRules (rules cfg) w3 of
           (Inl err, w4) \<Rightarrow> (Inl err, w4)
         | (Inr x, w4) \<Rightarrow>
             (case checkTargets e cfg wd cwd paths (snd (hrtime_bigint e w4)) of
                (Inl err, w6) \<Rightarrow> (Inl err, w6)
              | (Inr x, w6) \<Rightarrow>
                  (case (if rs then report e cfg t0 t1 (fst (hrtime_bigint e w4))
                                     (fst (hrtime_bigint e w6)) (snd (hrtime_bigint e w6))
                         else (Inr (), snd (hrtime_bigint e w6))) of
                     (Inl err, w8) \<Rightarrow> (Inl err, w8)
                   | (Inr x, w8) \<Rightarrow> (Inr (\<not> failed (contexts w8 ! 0)), w8))))"
    by blast
  define w5 where "w5 = snd (hrtime_bigint e (snd (validateRules (rules cfg) w3)))"
  define w6 where "w6 = snd (checkTargets e cfg wd cwd paths w5)"
  define w7 where "w7 = snd (hrtime_bigint e w6)"
  define t2 where "t2 = fst (hrtime_bigint e (snd (validateRules (rules cfg) w3)))"
  define t3 where "t3 = fst (hrtime_bigint e w6)"
  define fin where "fin = (if rs then report e cfg t0 t1 t2 t3 w7 else (Inr (), w7))"
  from ok have v: "fst (validateRules (rules cfg) w3) = Inr ()"
    and c: "fst (checkTargets e cfg wd cwd paths w5) = Inr ()"
    and f: "fst fin = Inr ()"
    and st: "snd (check e cfg cwd paths rs w) = snd fin"
    and b: "b = (\<not> failed (contexts (snd fin) ! 0))"
    unfolding unfold w5_def w6_def w7_def t2_def t3_def fin_def
    by (auto simp: split_beta split: sum.splits if_splits)
  have allok: "list_all (\<lambda>r. optionsRuntype r (options r)) (rules cfg)"
    using v by (simp add: vr_ok_iff)
  have 3: "trace w5 = map (\<lambda>r. Validate (rule_id r)) (rules cfg)"
    using vr_ok [OF allok, of w3] by (simp add: w5_def w3)
  have 4: "contexts w5 = [\<lparr>packageDir = wd, failed = False, parent = None\<rparr>]"
    by (simp add: w5_def w3)
  have 5: "perRule w5 = []" "packagesChecked w5 = 0"
    by (simp_all add: w5_def w3)
  have fields: "contexts (snd fin) = contexts w6" "perRule (snd fin) = perRule w6"
    "packagesChecked (snd fin) = packagesChecked w6"
    by (simp_all add: fin_def w7_def)
  have ext: "extends reportEvent w6 (snd fin)"
  proof (cases rs)
    case True
    have "extends reportEvent w6 w7"
      by (simp add: w7_def extends_refl)
    then show ?thesis
      using True rep_extends [of w7 e cfg t0 t1 t2 t3] by (auto simp: fin_def intro: extends_trans)
  next
    case False
    then show ?thesis
      by (simp add: fin_def w7_def extends_refl)
  qed
  have calls: "\<exists>new. printStatsCalls (trace (snd fin)) = printStatsCalls (trace w6) @ new
              \<and> distinct new \<and> set new = {f. \<exists>r\<in>set (rules cfg). printStats r = Some f}" if rs
  proof -
    have "fst (report e cfg t0 t1 t2 t3 w7) = Inr ()"
      using f that by (simp add: fin_def)
    from rep_calls [OF this] show ?thesis
      using that by (simp add: fin_def w7_def)
  qed
  show ?thesis
    using that [OF wd allok 3 4 5 c] fields ext b calls
    unfolding st w6_def by blast
qed

lemma statsInv_start:
  "trace w = map (\<lambda>r. Validate (rule_id r)) rs \<Longrightarrow> perRule w = [] \<Longrightarrow> packagesChecked w = 0 \<Longrightarrow>
   statsInv cfg w"
  by (simp add: statsInv_def sumExecutions_def)

lemma storeInv_start:
  "trace w = map (\<lambda>r. Validate (rule_id r)) rs \<Longrightarrow>
   contexts w = [\<lparr>packageDir = wd, failed = False, parent = None\<rparr>] \<Longrightarrow> storeInv w"
  by (simp add: storeInv_def)

lemma ruleEvents_reportEvent: "list_all reportEvent evs \<Longrightarrow> ruleEvents evs = []"
  by (induction evs) (auto elim: reportEvent.elims)

lemma extends_report_ruleEvents:
  "extends reportEvent w w' \<Longrightarrow> ruleEvents (trace w') = ruleEvents (trace w)"
  by (auto simp: extends_iff ruleEvents_reportEvent)

lemma ruleEvents_Validate [simp]: "ruleEvents (map (\<lambda>r. Validate (f r)) rs) = []"
  by (induction rs) simp_all

lemma cp_ruleEvents:
  assumes "fst (checkPackage e cfg c w) = Inr u"
  shows "ruleEvents (trace (snd (checkPackage e cfg c w))) =
           ruleEvents (trace w) @
           concat (map (\<lambda>r. [CheckStart c (rule_id r), CheckEnd c (rule_id r)])
                     (filter (\<lambda>r. \<not> fst (shouldSkipPackage e c r w)) (rules cfg))) @
           [Finish c]"
proof -
  have ok: "fst (checkRules e c (rules cfg) (announce e cfg c w)) = Inr u"
    using assms by (simp add: cp_fst)
  show ?thesis
    by (simp add: cp_snd_ok [OF assms] crs_ruleEvents [OF ok] an_skip)
qed

lemma child_two_rules:
  assumes cfg: "rules cfg = [ra, rb]"
    and cs: "contexts w = [root, \<lparr>packageDir = dir, failed = False, parent = Some 0\<rparr>]"
    and ra: "excludePackages ra = None" "includePackages ra = None"
    and rb: "excludePackages rb = None" "includePackages rb = None"
    and oa: "rule_check ra \<lparr>packageDir = dir, failed = False, parent = Some 0\<rparr> (options ra) (rule_id ra) = oa"
      "oa \<noteq> Throw"
    and ob: "rule_check rb \<lparr>packageDir = dir, failed = (oa = Fail), parent = Some 0\<rparr> (options rb) (rule_id rb) = ob"
      "ob \<noteq> Throw"
  shows "fst (checkPackage e cfg 1 w) = Inr ()"
    and "contexts (snd (checkPackage e cfg 1 w)) =
           [root\<lparr>failed := failed root \<or> oa = Fail \<or> ob = Fail\<rparr>,
            \<lparr>packageDir = dir, failed = (oa = Fail \<or> ob = Fail), parent = Some 0\<rparr>]"
    and "filter (\<lambda>r. \<not> fst (shouldSkipPackage e 1 r w)) (rules cfg) = [ra, rb]"
proof -
  let ?w0 = "announce e cfg 1 w"
  let ?w1 = "snd (checkRule e 1 ra ?w0)"
  let ?w2 = "snd (checkRule e 1 rb ?w1)"
  have gw: "getWorkspaceContext w 1 = 0"
    using cs by (simp add: getWorkspaceContext_def)
  have sa: "\<not> fst (shouldSkipPackage e 1 ra w)" and sb: "\<not> fst (shouldSkipPackage e 1 rb w)"
    using gw by (simp_all add: ssp_fst ra rb)
  show 3: "filter (\<lambda>r. \<not> fst (shouldSkipPackage e 1 r w)) (rules cfg) = [ra, rb]"
    using sa sb by (simp add: cfg)
  have sa0: "\<not> fst (shouldSkipPackage e 1 ra ?w0)"
    using sa by (simp add: an_skip)
  have ca: "callCheck ra ?w0 1 = oa"
    using cs oa by (simp add: callCheck_def)
  have fa: "fst (checkRule e 1 ra ?w0) = Inr ()"
    using sa0 ca oa by (simp add: cr_fst)
  have c1: "contexts ?w1 = [root, \<lparr>packageDir = dir, failed = (oa = Fail), parent = Some 0\<rparr>]"
    using sa0 ca cs by (simp add: cr_contexts)
  have sb1: "\<not> fst (shouldSkipPackage e 1 rb ?w1)"
  proof -
    have "marks 1 ?w0 ?w1" by (rule cr_marks)
    from marks_skip [OF this] show ?thesis
      using sb by (simp add: an_skip)
  qed
  have cb: "callCheck rb ?w1 1 = ob"
    using c1 ob by (simp add: callCheck_def)
  have fb: "fst (checkRule e 1 rb ?w1) = Inr ()"
    using sb1 cb ob by (simp add: cr_fst)
  have c2: "contexts ?w2 = [root, \<lparr>packageDir = dir, failed = (oa = Fail \<or> ob = Fail), parent = Some 0\<rparr>]"
    using sb1 cb c1 by (auto simp: cr_contexts)
  have rs: "checkRules e 1 (rules cfg) ?w0 = (Inr (), ?w2)"
    using fa fb by (simp add: cfg split_beta prod_eq_iff)
  show 1: "fst (checkPackage e cfg 1 w) = Inr ()"
    using rs by (simp add: cp_fst)
  have gw2: "getWorkspaceContext ?w2 1 = 0"
    using c2 by (simp add: getWorkspaceContext_def)
  show "contexts (snd (checkPackage e cfg 1 w)) =
           [root\<lparr>failed := failed root \<or> oa = Fail \<or> ob = Fail\<rparr>,
            \<lparr>packageDir = dir, failed = (oa = Fail \<or> ob = Fail), parent = Some 0\<rparr>]"
    using cp_snd_ok [OF 1] gw2 rs c2 by (simp add: fin_contexts)
qed

lemma single_path_run:
  assumes wd: "findWorkspaceDir e cwd = Some wd"
    and dir: "pathDirname (pathResolve p) = dir" "dir \<noteq> wd"
    and cfg: "rules cfg = [ra, rb]"
    and valid: "optionsRuntype ra (options ra)" "optionsRuntype rb (options rb)"
    and ra: "excludePackages ra = None" "includePackages ra = None"
    and rb: "excludePackages rb = None" "includePackages rb = None"
    and oa: "rule_check ra \<lparr>packageDir = dir, failed = False, parent = Some 0\<rparr> (options ra) (rule_id ra) = oa"
      "oa \<noteq> Throw"
    and ob: "rule_check rb \<lparr>packageDir = dir, failed = (oa = Fail), parent = Some 0\<rparr> (options rb) (rule_id rb) = ob"
      "ob \<noteq> Throw"
  shows "fst (check e cfg cwd (Some [p]) rs w) = Inr (oa \<noteq> Fail \<and> ob \<noteq> Fail)
       \<and> packagesChecked (snd (check e cfg cwd (Some [p]) rs w)) = 1
       \<and> finishedScopes (trace (snd (check e cfg cwd (Some [p]) rs w))) = [1]
       \<and> map packageDir (contexts (snd (check e cfg cwd (Some [p]) rs w))) = [wd, dir]
       \<and> ruleEvents (trace (snd (check e cfg cwd (Some [p]) rs w))) =
           [CheckStart 1 (rule_id ra), CheckEnd 1 (rule_id ra),
            CheckStart 1 (rule_id rb), CheckEnd 1 (rule_id rb), Finish 1]"
proof -
  let ?root = "\<lparr>packageDir = wd, failed = False, parent = None\<rparr>"
  from check_stages [OF wd, where cfg = cfg and paths = "Some [p]" and rs = rs and w = w]
  obtain w3 t0 t1 where
    w3: "trace w3 = []" "contexts w3 = [?root]" "perRule w3 = []" "packagesChecked w3 = 0"
    and unfold: "check e cfg cwd (Some [p]) rs w =
        (case validateRules (rules cfg) w3 of
           (Inl err, w4) \<Rightarrow> (Inl err, w4)
         | (Inr x, w4) \<Rightarrow>
             (case checkTargets e cfg wd cwd (Some [p]) (snd (hrtime_bigint e w4)) of
                (Inl err, w6) \<Rightarrow> (Inl err, w6)
              | (Inr x, w6) \<Rightarrow>
                  (case (if rs then report e cfg t0 t1 (fst (hrtime_bigint e w4))
                                     (fst (hrtime_bigint e w6)) (snd (hrtime_bigint e w6))
                         else (Inr (), snd (hrtime_bigint e w6))) of
                     (Inl err, w8) \<Rightarrow> (Inl err, w8)
                   | (Inr x, w8) \<Rightarrow> (Inr (\<not> failed (contexts w8 ! 0)), w8))))"
    by blast
  define w4 where "w4 = snd (validateRules (rules cfg) w3)"
  define w5 where "w5 = snd (hrtime_bigint e w4)"
  define W where "W = snd (createChildContext dir (countPackage w5))"
  define w6 where "w6 = snd (checkPackage e cfg 1 W)"
  define w7 where "w7 = snd (hrtime_bigint e w6)"
  define fin where "fin = (if rs then report e cfg t0 t1 (fst (hrtime_bigint e w4))
                                     (fst (hrtime_bigint e w6)) w7
                           else (Inr (), w7))"
  have allok: "list_all (\<lambda>r. optionsRuntype r (options r)) (rules cfg)"
    using valid by (simp add: cfg)
  from vr_ok [OF allok, of w3] have v: "validateRules (rules cfg) w3 = (Inr (), w4)"
    and tr4: "trace w4 = map (\<lambda>r. Validate (rule_id r)) (rules cfg)"
    by (simp_all add: w4_def w3 prod_eq_iff)
  have w5: "trace w5 = map (\<lambda>r. Validate (rule_id r)) (rules cfg)" "contexts w5 = [?root]"
    "perRule w5 = []" "packagesChecked w5 = 0"
    by (simp_all add: w5_def w4_def w3 tr4 [unfolded w4_def])
  have W: "contexts W = [?root, \<lparr>packageDir = dir, failed = False, parent = Some 0\<rparr>]"
    "trace W = trace w5" "perRule W = perRule w5" "packagesChecked W = packagesChecked w5 + 1"
    by (simp_all add: W_def w5)
  note two = child_two_rules [OF cfg W(1) ra rb oa ob, of e]
  have ok6: "fst (checkPackage e cfg 1 W) = Inr ()"
    by (rule two(1))
  have c6: "contexts w6 = [?root\<lparr>failed := oa = Fail \<or> ob = Fail\<rparr>,
            \<lparr>packageDir = dir, failed = (oa = Fail \<or> ob = Fail), parent = Some 0\<rparr>]"
    using two(2) by (simp add: w6_def)
  have targets: "checkTargets e cfg wd cwd (Some [p]) w5 = (Inr (), w6)"
    using ok6 dir
    by (simp add: checkTargets_def checkChild_alt w5 W_def [symmetric] w6_def split_beta prod_eq_iff)
  have "statsInv cfg w5"
    using w5(1,3,4) by (rule statsInv_start)
  then have "statsInv cfg w6"
    unfolding w6_def using ok6 W(3,4,2) by (rule cp_statsInv)
  then have pos: "list_all (\<lambda>kv. 0 < executions (snd kv)) (perRule w7)"
    by (simp add: statsInv_def w7_def)
  have f: "fst fin = Inr ()"
    using rep_ok [OF pos] by (simp add: fin_def)
  have st: "check e cfg cwd (Some [p]) rs w = (Inr (\<not> failed (contexts (snd fin) ! 0)), snd fin)"
    using f unfolding unfold v
    by (cases rs)
       (simp_all add: w5_def [symmetric] targets w7_def [symmetric] fin_def split_beta
        split: sum.splits)
  have fields: "contexts (snd fin) = contexts w6" "packagesChecked (snd fin) = packagesChecked w6"
    by (simp_all add: fin_def w7_def)
  have ext: "extends reportEvent w6 (snd fin)"
  proof (cases rs)
    case True
    have "extends reportEvent w6 w7"
      by (simp add: w7_def extends_refl)
    then show ?thesis
      using True rep_extends [of w7 e cfg] by (auto simp: fin_def intro: extends_trans)
  next
    case False
    then show ?thesis
      by (simp add: fin_def w7_def extends_refl)
  qed
  have fs: "finishedScopes (trace w6) = [1]"
    using cp_finished [OF ok6] by (simp add: w6_def W w5)
  have re: "ruleEvents (trace w6) = [CheckStart 1 (rule_id ra), CheckEnd 1 (rule_id ra),
            CheckStart 1 (rule_id rb), CheckEnd 1 (rule_id rb), Finish 1]"
    using cp_ruleEvents [OF ok6] two(3) by (simp add: w6_def W w5)
  have n: "packagesChecked w6 = 1"
    by (simp add: w6_def W w5)
  show ?thesis
    using c6 fs re n
    by (simp add: st fields extends_report_finishedScopes [OF ext]
        extends_report_ruleEvents [OF ext])
qed

lemma scopeEvent_not_Validate: "scopeEvent ev \<Longrightarrow> \<not> isValidate ev"
  by (cases ev) simp_all

lemma reportEvent_not_Validate: "reportEvent ev \<Longrightarrow> \<not> isValidate ev"
  by (cases ev) simp_all

lemmas check_defs = check_def newRun_def checkTargets_def pathDirname_def pathResolve_def

lemma ex_root_step:
  "checkWorkspace ex_env ex_config
     \<lparr>ticks = 6, contexts = [\<lparr>packageDir = [''ws''], failed = False, parent = None\<rparr>],
      perRule = [], packagesChecked = 0, includesCost = 40, excludesCost = 50,
      trace = [Validate ''a'', Validate ''b'']\<rparr> =
   (Inr (),
    \<lparr>ticks = 14, contexts = [\<lparr>packageDir = [''ws''], failed = False, parent = None\<rparr>],
      perRule = [(''ruleA'', \<lparr>stat_name = ''ruleA'', totalTime = 100, executions = 1\<rparr>),
                 (''unknown'', \<lparr>stat_name = ''unknown'', totalTime = 500, executions = 1\<rparr>)],
      packagesChecked = 1, includesCost = 140, excludesCost = 150,
      trace = [Validate ''a'', Validate ''b'', CheckStart 0 ''b'', CheckEnd 0 ''b'', Finish 0]\<rparr>)"
  by (simp add: checkWorkspace_def run_defs ex_defs)

lemma ex_facts:
  "findWorkspaceDir ex_env [''ws''] = Some [''ws'']"
  "hrtime ex_env n = 100 * int n"
  "rules ex_config = [ruleA, ruleB]"
  "optionsRuntype ruleA (options ruleA)" "optionsRuntype ruleB (options ruleB)"
  "rule_id ruleA = ''a''" "rule_id ruleB = ''b''"
  by (simp_all add: ex_defs)

lemma ex_pkgX_run:
  "fst (check ex_env ex_config [''ws''] (Some [[''ws'', ''pkgX'', ''package.json'']]) rs ex_world) = Inr True"
  using single_path_run [of ex_env "[''ws'']" "[''ws'']" "[''ws'', ''pkgX'', ''package.json'']"
      "[''ws'', ''pkgX'']" ex_config ruleA ruleB Pass Pass rs ex_world]
  by (simp add: ex_defs pathDirname_def pathResolve_def)

lemma ex_pkgY_run:
  "fst (check ex_env ex_config [''ws''] (Some [[''ws'', ''pkgY'', ''package.json'']]) rs ex_world) = Inr False
   \<and> finishedScopes (trace (snd (check ex_env ex_config [''ws'']
         (Some [[''ws'', ''pkgY'', ''package.json'']]) rs ex_world))) = [1]"
  using single_path_run [of ex_env "[''ws'']" "[''ws'']" "[''ws'', ''pkgY'', ''package.json'']"
      "[''ws'', ''pkgY'']" ex_config ruleA ruleB Pass Fail rs ex_world]
  by (simp add: ex_defs pathDirname_def pathResolve_def)

subsection \<open>Runs that resolve\<close>

lemma crs_ok:
  "\<forall>r\<in>set rs. \<forall>c opts i. rule_check r c opts i \<noteq> Throw \<Longrightarrow> fst (checkRules e c rs w) = Inr ()"
  by (induction rs arbitrary: w) (simp_all add: split_beta cr_fst callCheck_def)

lemma cp_ok:
  "\<forall>r\<in>set (rules cfg). \<forall>c opts i. rule_check r c opts i \<noteq> Throw \<Longrightarrow>
   fst (checkPackage e cfg c w) = Inr ()"
  by (simp add: cp_fst crs_ok)

lemma checkPaths_ok:
  "\<forall>r\<in>set (rules cfg). \<forall>c opts i. rule_check r c opts i \<noteq> Throw \<Longrightarrow>
   fst (checkPaths e cfg wd ps w) = Inr ()"
  by (induction ps arbitrary: w) (auto simp: split_beta checkWorkspace_def checkChild_alt cp_ok)

lemma checkPackageDirs_ok:
  "\<forall>r\<in>set (rules cfg). \<forall>c opts i. rule_check r c opts i \<noteq> Throw \<Longrightarrow>
   fst (checkPackageDirs e cfg ds w) = Inr ()"
  by (induction ds arbitrary: w) (simp_all add: split_beta checkChild_alt cp_ok)

lemma checkTargets_ok:
  "\<forall>r\<in>set (rules cfg). \<forall>c opts i. rule_check r c opts i \<noteq> Throw \<Longrightarrow>
   fst (checkTargets e cfg wd cwd paths w) = Inr ()"
  by (simp add: checkTargets_def split_beta checkWorkspace_def checkChild_alt cp_ok
      checkPaths_ok checkPackageDirs_ok split: option.splits)

lemma check_resolves:
  assumes wd: "findWorkspaceDir e cwd = Some wd"
    and allok: "list_all (\<lambda>r. optionsRuntype r (options r)) (rules cfg)"
    and nothrow: "\<forall>r\<in>set (rules cfg). \<forall>c opts i. rule_check r c opts i \<noteq> Throw"
  shows "\<exists>b. fst (check e cfg cwd paths rs w) = Inr b"
proof -
  from check_stages [OF wd, where cfg = cfg and paths = paths and rs = rs and w = w]
  obtain w3 t0 t1 where
    w3: "trace w3 = []" "perRule w3 = []" "packagesChecked w3 = 0"
    and unfold: "check e cfg cwd paths rs w =
        (case validateRules (rules cfg) w3 of
           (Inl err, w4) \<Rightarrow> (Inl err, w4)
         | (Inr x, w4) \<Rightarrow>
             (case checkTargets e cfg wd cwd paths (snd (hrtime_bigint e w4)) of
                (Inl err, w6) \<Rightarrow> (Inl err, w6)
              | (Inr x, w6) \<Rightarrow>
                  (case (if rs then report e cfg t0 t1 (fst (hrtime_bigint e w4))
                                     (fst (hrtime_bigint e w6)) (snd (hrtime_bigint e w6))
                         else (Inr (), snd (hrtime_bigint e w6))) of
                     (Inl err, w8) \<Rightarrow> (Inl err, w8)
                   | (Inr x, w8) \<Rightarrow> (Inr (\<not> failed (contexts w8 ! 0)), w8))))"
    by blast
  define w4 where "w4 = snd (validateRules (rules cfg) w3)"
  define w5 where "w5 = snd (hrtime_bigint e w4)"
  define w6 where "w6 = snd (checkTargets e cfg wd cwd paths w5)"
  define w7 where "w7 = snd (hrtime_bigint e w6)"
  from vr_ok [OF allok, of w3] have v: "validateRules (rules cfg) w3 = (Inr (), w4)"
    and tr4: "trace w4 = map (\<lambda>r. Validate (rule_id r)) (rules cfg)"
    by (simp_all add: w4_def w3 prod_eq_iff)
  have t: "checkTargets e cfg wd cwd paths w5 = (Inr (), w6)"
    using checkTargets_ok [OF nothrow, of e wd cwd paths w5] by (simp add: w6_def prod_eq_iff)
  have "statsInv cfg w5"
    by (rule statsInv_start [of _ "rules cfg"]) (simp_all add: w5_def tr4, simp_all add: w4_def w3)
  with cw_statsInv cc_statsInv have "statsInv cfg w6"
    unfolding w6_def using t by (intro checkTargets_preserves [where P = "statsInv cfg"]) simp_all
  then have pos: "list_all (\<lambda>kv. 0 < executions (snd kv)) (perRule w7)"
    by (simp add: statsInv_def w7_def)
  have r: "fst (report e cfg a b c d w7) = Inr ()" for a b c d
    using pos by (rule rep_ok)
  show ?thesis
    unfolding unfold v
    by (cases rs)
       (simp_all add: w5_def [symmetric] t w7_def [symmetric] r split_beta split: sum.splits)
qed

subsection \<open>Counting the target scopes\<close>

lemma cw_count [simp]:
  "packagesChecked (snd (checkWorkspace e cfg w)) = packagesChecked w + 1"
  by (simp add: checkWorkspace_def)

lemma cc_count [simp]:
  "packagesChecked (snd (checkChild e cfg p w)) = packagesChecked w + 1"
  by (simp add: checkChild_alt)




section \<open>Runs\<close>

text \<open>
  C1. Whenever \<open>check\<close> resolves, the boolean it resolves to is the negation of the
  \<open>failed\<close> flag of the Workspace Context, and it is true exactly when no scope that was
  checked has its flag set. It does resolve when the workspace is found, every validator
  accepts its options and no check operation throws.
\<close>

theorem check_returns_not_failed:
  "(\<forall>b. fst (check e cfg cwd paths rs w) = Inr b \<longrightarrow>
       b = (\<not> failed (contexts (snd (check e cfg cwd paths rs w)) ! 0))
     \<and> b = list_all (\<lambda>c. \<not> failed (contexts (snd (check e cfg cwd paths rs w)) ! c))
             (finishedScopes (trace (snd (check e cfg cwd paths rs w)))))
   \<and> (findWorkspaceDir e cwd \<noteq> None
        \<and> list_all (\<lambda>r. optionsRuntype r (options r)) (rules cfg)
        \<and> (\<forall>r\<in>set (rules cfg). \<forall>c opts i. rule_check r c opts i \<noteq> Throw) \<longrightarrow>
      (\<exists>b. fst (check e cfg cwd paths rs w) = Inr b))"
proof (intro conjI allI impI)
  fix b
  assume ok: "fst (check e cfg cwd paths rs w) = Inr b"
  let ?w' = "snd (check e cfg cwd paths rs w)"
  have "b = (\<not> failed (contexts ?w' ! 0))
      \<and> b = list_all (\<lambda>c. \<not> failed (contexts ?w' ! c)) (finishedScopes (trace ?w'))"
  proof (rule check_success [OF ok])
    fix wd w5
    let ?w6 = "snd (checkTargets e cfg wd cwd paths w5)"
    assume tr: "trace w5 = map (\<lambda>r. Validate (rule_id r)) (rules cfg)"
      and cs: "contexts w5 = [\<lparr>packageDir = wd, failed = False, parent = None\<rparr>]"
      and t: "fst (checkTargets e cfg wd cwd paths w5) = Inr ()"
      and same: "contexts ?w' = contexts ?w6"
      and ext: "extends reportEvent ?w6 ?w'"
      and b: "b = (\<not> failed (contexts ?w' ! 0))"
    have "storeInv w5"
      using tr cs by (rule storeInv_start)
    with cw_storeInv cc_storeInv have "storeInv ?w6"
      using t by (rule checkTargets_preserves [where P = storeInv])
    moreover have "finishedScopes (trace ?w') = finishedScopes (trace ?w6)"
      using ext by (rule extends_report_finishedScopes)
    ultimately have "failed (contexts ?w' ! 0) =
        list_ex (\<lambda>c. failed (contexts ?w' ! c)) (finishedScopes (trace ?w'))"
      by (simp add: storeInv_def same)
    then show ?thesis
      using b by (simp add: list_all_iff list_ex_iff)
  qed
  then show "b = (\<not> failed (contexts ?w' ! 0))"
    and "b = list_all (\<lambda>c. \<not> failed (contexts ?w' ! c)) (finishedScopes (trace ?w'))"
    by (rule conjunct1, rule conjunct2)
next
  assume a: "findWorkspaceDir e cwd \<noteq> None
        \<and> list_all (\<lambda>r. optionsRuntype r (options r)) (rules cfg)
        \<and> (\<forall>r\<in>set (rules cfg). \<forall>c opts i. rule_check r c opts i \<noteq> Throw)"
  then obtain wd where "findWorkspaceDir e cwd = Some wd"
    by auto
  then show "\<exists>b. fst (check e cfg cwd paths rs w) = Inr b"
    using a by (intro check_resolves) simp_all
qed

theorem check_returns_not_failed_witness:
  "findWorkspaceDir ex_env [''ws''] = Some [''ws'']
   \<and> list_all (\<lambda>r. optionsRuntype r (options r)) (rules ex_config)
   \<and> fst (check ex_env ex_config [''ws''] (Some [[''ws'', ''pkgY'', ''package.json'']]) False ex_world) = Inr False
   \<and> failed (contexts (snd (check ex_env ex_config [''ws'']
         (Some [[''ws'', ''pkgY'', ''package.json'']]) False ex_world)) ! 0)
   \<and> failed (contexts (snd (check ex_env ex_config [''ws'']
         (Some [[''ws'', ''pkgY'', ''package.json'']]) False ex_world)) ! 1)"
proof -
  have h: "fst (check ex_env ex_config [''ws''] (Some [[''ws'', ''pkgY'', ''package.json'']]) False ex_world) = Inr False"
    using ex_pkgY_run by simp
  have wd: "findWorkspaceDir ex_env [''ws''] = Some [''ws'']"
    and valid: "list_all (\<lambda>r. optionsRuntype r (options r)) (rules ex_config)"
    and nothrow: "\<forall>r\<in>set (rules ex_config). \<forall>c opts i. rule_check r c opts i \<noteq> Throw"
    by (simp_all add: ex_defs)
  show ?thesis
    using check_returns_not_failed [of ex_env ex_config "[''ws'']"
        "Some [[''ws'', ''pkgY'', ''package.json'']]" False ex_world]
      h wd valid nothrow ex_pkgY_run [of False]
    by simp
qed

text \<open>
  C2, as stated, at the path of the package directory itself: with the workspace
  \<^verbatim>\<open>/ws\<close> and \<^verbatim>\<open>paths = ["/ws/pkgX"]\<close>, the path resolves to its containing directory
  \<^verbatim>\<open>/ws\<close>, the workspace root. The only scope checked is the Workspace Context, no
  context is created for \<^verbatim>\<open>pkgX\<close>, and the rule that excludes the workspace root does
  not run.
\<close>

theorem explicit_package_dir_counterexample:
  "pathDirname (pathResolve [''ws'', ''pkgX'']) = [''ws'']
   \<and> fst (check ex_env ex_config [''ws''] (Some [[''ws'', ''pkgX'']]) False ex_world) = Inr True
   \<and> map packageDir (contexts (snd (check ex_env ex_config [''ws''] (Some [[''ws'', ''pkgX'']]) False ex_world)))
       = [[''ws'']]
   \<and> ruleEvents (trace (snd (check ex_env ex_config [''ws''] (Some [[''ws'', ''pkgX'']]) False ex_world)))
       = [CheckStart 0 ''b'', CheckEnd 0 ''b'', Finish 0]"
  by (simp add: check_defs hrtime_bigint_def emit_def Let_def ex_facts ex_world_def ex_root_step)

text \<open>
  C2, amended. For a config with two rules without include or exclude patterns (the
  first one excluding the workspace root) and an explicit path that is a file directly
  inside the package directory \<open>pkgX\<close> (its containing directory is \<open>pkgX\<close>, which is not
  the workspace root), \<open>check\<close> checks exactly one scope, a child context for \<open>pkgX\<close>, runs
  both rules once against it, in order, and returns true iff neither marks it failed.
\<close>

theorem explicit_path_scenario:
  assumes "findWorkspaceDir e cwd = Some wd"
    and "pathDirname (pathResolve p) = pkgX" and "pkgX \<noteq> wd"
    and "rules cfg = [ra, rb]"
    and "optionsRuntype ra (options ra)" and "optionsRuntype rb (options rb)"
    and "falsy (includeWorkspaceRoot ra)"
    and "excludePackages ra = None" and "includePackages ra = None"
    and "excludePackages rb = None" and "includePackages rb = None"
    and "rule_check ra \<lparr>packageDir = pkgX, failed = False, parent = Some 0\<rparr> (options ra) (rule_id ra) = oa"
    and "oa \<noteq> Throw"
    and "rule_check rb \<lparr>packageDir = pkgX, failed = (oa = Fail), parent = Some 0\<rparr> (options rb) (rule_id rb) = ob"
    and "ob \<noteq> Throw"
  shows "fst (check e cfg cwd (Some [p]) rs w) = Inr (oa \<noteq> Fail \<and> ob \<noteq> Fail)
       \<and> packagesChecked (snd (check e cfg cwd (Some [p]) rs w)) = 1
       \<and> finishedScopes (trace (snd (check e cfg cwd (Some [p]) rs w))) = [1]
       \<and> map packageDir (contexts (snd (check e cfg cwd (Some [p]) rs w))) = [wd, pkgX]
       \<and> ruleEvents (trace (snd (check e cfg cwd (Some [p]) rs w))) =
           [CheckStart 1 (rule_id ra), CheckEnd 1 (rule_id ra),
            CheckStart 1 (rule_id rb), CheckEnd 1 (rule_id rb), Finish 1]"
  using assms(1-6,8-15) by (rule single_path_run)

theorem explicit_path_scenario_witness:
  "fst (check ex_env ex_config [''ws''] (Some [[''ws'', ''pkgX'', ''package.json'']]) True ex_world) = Inr True
   \<and> packagesChecked (snd (check ex_env ex_config [''ws'']
         (Some [[''ws'', ''pkgX'', ''package.json'']]) True ex_world)) = 1
   \<and> finishedScopes (trace (snd (check ex_env ex_config [''ws'']
         (Some [[''ws'', ''pkgX'', ''package.json'']]) True ex_world))) = [1]
   \<and> map packageDir (contexts (snd (check ex_env ex_config [''ws'']
         (Some [[''ws'', ''pkgX'', ''package.json'']]) True ex_world))) = [[''ws''], [''ws'', ''pkgX'']]
   \<and> ruleEvents (trace (snd (check ex_env ex_config [''ws'']
         (Some [[''ws'', ''pkgX'', ''package.json'']]) True ex_world))) =
       [CheckStart 1 ''a'', CheckEnd 1 ''a'', CheckStart 1 ''b'', CheckEnd 1 ''b'', Finish 1]"
  using explicit_path_scenario [of ex_env "[''ws'']" "[''ws'']" "[''ws'', ''pkgX'', ''package.json'']"
      "[''ws'', ''pkgX'']" ex_config ruleA ruleB Pass Pass True ex_world]
  by (simp add: ex_defs pathDirname_def pathResolve_def falsy_def)

text \<open>
  C4. Once the workspace is found, the options of the rules are validated first: when
  every validator accepts, the trace of the run starts with one validation for each rule,
  in order, and has no other validation; when one throws, \<open>check\<close> rejects with that
  error, nothing but the validations up to that rule has happened, no scope has been
  created or counted and the statistics are empty.
\<close>

theorem validation_once:
  assumes wd: "findWorkspaceDir e cwd = Some wd"
  shows "(list_all (\<lambda>r. optionsRuntype r (options r)) (rules cfg) \<longrightarrow>
            take (length (rules cfg)) (trace (snd (check e cfg cwd paths rs w))) =
              map (\<lambda>r. Validate (rule_id r)) (rules cfg)
          \<and> list_all (\<lambda>ev. \<not> isValidate ev)
               (drop (length (rules cfg)) (trace (snd (check e cfg cwd paths rs w)))))
       \<and> (\<forall>r0. List.find (\<lambda>r. \<not> optionsRuntype r (options r)) (rules cfg) = Some r0 \<longrightarrow>
            fst (check e cfg cwd paths rs w) = Inl (OptionsInvalid (rule_id r0))
          \<and> trace (snd (check e cfg cwd paths rs w)) =
              map (\<lambda>r. Validate (rule_id r))
                (takeWhile (\<lambda>r. optionsRuntype r (options r)) (rules cfg)) @ [Validate (rule_id r0)]
          \<and> perRule (snd (check e cfg cwd paths rs w)) = []
          \<and> packagesChecked (snd (check e cfg cwd paths rs w)) = 0
          \<and> length (contexts (snd (check e cfg cwd paths rs w))) = 1)"
proof -
  let ?w' = "snd (check e cfg cwd paths rs w)"
  from check_stages [OF wd, where cfg = cfg and paths = paths and rs = rs and w = w]
  obtain w3 t0 t1 where
    w3: "trace w3 = []" "contexts w3 = [\<lparr>packageDir = wd, failed = False, parent = None\<rparr>]"
      "perRule w3 = []" "packagesChecked w3 = 0"
    and unfold: "check e cfg cwd paths rs w =
        (case validateRules (rules cfg) w3 of
           (Inl err, w4) \<Rightarrow> (Inl err, w4)
         | (Inr x, w4) \<Rightarrow>
             (case checkTargets e cfg wd cwd paths (snd (hrtime_bigint e w4)) of
                (Inl err, w6) \<Rightarrow> (Inl err, w6)
              | (Inr x, w6) \<Rightarrow>
                  (case (if rs then report e cfg t0 t1 (fst (hrtime_bigint e w4))
                                     (fst (hrtime_bigint e w6)) (snd (hrtime_bigint e w6))
                         else (Inr (), snd (hrtime_bigint e w6))) of
                     (Inl err, w8) \<Rightarrow> (Inl err, w8)
                   | (Inr x, w8) \<Rightarrow> (Inr (\<not> failed (contexts w8 ! 0)), w8))))"
    by blast
  define w4 where "w4 = snd (validateRules (rules cfg) w3)"
  define w5 where "w5 = snd (hrtime_bigint e w4)"
  define w6 where "w6 = snd (checkTargets e cfg wd cwd paths w5)"
  define w7 where "w7 = snd (hrtime_bigint e w6)"
  have good: "take (length (rules cfg)) (trace ?w') = map (\<lambda>r. Validate (rule_id r)) (rules cfg)
          \<and> list_all (\<lambda>ev. \<not> isValidate ev) (drop (length (rules cfg)) (trace ?w'))"
    if allok: "list_all (\<lambda>r. optionsRuntype r (options r)) (rules cfg)"
  proof -
    from vr_ok [OF allok, of w3] have v: "validateRules (rules cfg) w3 = (Inr (), w4)"
      and tr4: "trace w4 = map (\<lambda>r. Validate (rule_id r)) (rules cfg)"
      by (simp_all add: w4_def w3 prod_eq_iff)
    have tr5: "trace w5 = map (\<lambda>r. Validate (rule_id r)) (rules cfg)"
      by (simp add: w5_def tr4)
    have e6: "extends (\<lambda>ev. \<not> isValidate ev) w5 w6"
      unfolding w6_def
      by (rule extends_weaken [OF checkTargets_extends]) (rule scopeEvent_not_Validate)
    have e7: "extends (\<lambda>ev. \<not> isValidate ev) w5 w7"
      using e6 by (rule extends_trans) (simp add: w7_def extends_refl)
    have e8: "extends (\<lambda>ev. \<not> isValidate ev) w5 (snd (report e cfg a b c d w7))" for a b c d
      using e7
      by (rule extends_trans) (rule extends_weaken [OF rep_extends], rule reportEvent_not_Validate)
    have "?w' = w6 \<or> ?w' = w7 \<or> (\<exists>a b c d. ?w' = snd (report e cfg a b c d w7))"
      unfolding unfold v
      by (auto simp: split_beta w5_def [symmetric] w6_def [symmetric] w7_def [symmetric]
          split: sum.splits)
    then have "extends (\<lambda>ev. \<not> isValidate ev) w5 ?w'"
      using e6 e7 e8 by auto
    then show ?thesis
      by (simp add: extends_def tr5)
  qed
  have bad: "fst (check e cfg cwd paths rs w) = Inl (OptionsInvalid (rule_id r0))
          \<and> trace ?w' =
              map (\<lambda>r. Validate (rule_id r))
                (takeWhile (\<lambda>r. optionsRuntype r (options r)) (rules cfg)) @ [Validate (rule_id r0)]
          \<and> perRule ?w' = [] \<and> packagesChecked ?w' = 0 \<and> length (contexts ?w') = 1"
    if r0: "List.find (\<lambda>r. \<not> optionsRuntype r (options r)) (rules cfg) = Some r0" for r0
  proof -
    from vr_fail [OF r0, of w3]
    have v: "validateRules (rules cfg) w3 = (Inl (OptionsInvalid (rule_id r0)), w4)"
      and tr4: "trace w4 = map (\<lambda>r. Validate (rule_id r))
                (takeWhile (\<lambda>r. optionsRuntype r (options r)) (rules cfg)) @ [Validate (rule_id r0)]"
      by (simp_all add: w4_def w3 prod_eq_iff)
    have "check e cfg cwd paths rs w = (Inl (OptionsInvalid (rule_id r0)), w4)"
      unfolding unfold v by simp
    then show ?thesis
      by (simp add: tr4) (simp add: w4_def w3)
  qed
  show ?thesis
    using good bad by blast
qed

theorem validation_once_witness:
  "findWorkspaceDir ex_env [''ws''] = Some [''ws'']
   \<and> list_all (\<lambda>r. optionsRuntype r (options r)) (rules ex_config)
   \<and> take 2 (trace (snd (check ex_env ex_config [''ws''] None True ex_world))) =
       [Validate ''a'', Validate ''b'']
   \<and> list_all (\<lambda>ev. \<not> isValidate ev)
       (drop 2 (trace (snd (check ex_env ex_config [''ws''] None True ex_world))))
   \<and> List.find (\<lambda>r. \<not> optionsRuntype r (options r)) (rules ex_config_bad) = Some ruleInvalid
   \<and> fst (check ex_env ex_config_bad [''ws''] None True ex_world) = Inl (OptionsInvalid ''bad'')
   \<and> trace (snd (check ex_env ex_config_bad [''ws''] None True ex_world)) =
       [Validate ''a'', Validate ''bad'']
   \<and> perRule (snd (check ex_env ex_config_bad [''ws''] None True ex_world)) = []
   \<and> packagesChecked (snd (check ex_env ex_config_bad [''ws''] None True ex_world)) = 0"
proof -
  have wd: "findWorkspaceDir ex_env [''ws''] = Some [''ws'']"
    by (simp add: ex_env_def)
  have good: "list_all (\<lambda>r. optionsRuntype r (options r)) (rules ex_config)"
    "length (rules ex_config) = 2"
    "map (\<lambda>r. Validate (rule_id r)) (rules ex_config) = [Validate ''a'', Validate ''b'']"
    by (simp_all add: ex_defs)
  have bad: "List.find (\<lambda>r. \<not> optionsRuntype r (options r)) (rules ex_config_bad) = Some ruleInvalid"
    "map (\<lambda>r. Validate (rule_id r))
       (takeWhile (\<lambda>r. optionsRuntype r (options r)) (rules ex_config_bad)) = [Validate ''a'']"
    "rule_id ruleInvalid = ''bad''"
    by (simp_all add: ex_defs)
  show ?thesis
    using validation_once [OF wd, of ex_config None True ex_world]
      validation_once [OF wd, of ex_config_bad None True ex_world] wd good bad
    by simp
qed



text \<open>
  C8. In a run that reports statistics, the loop over the rules calls each
  \<open>printStats\<close> function that some rule has exactly once: the list of the calls has no
  duplicates, and its elements are the function references of the rules.
\<close>

theorem printStats_once:
  assumes "fst (check e cfg cwd paths True w) = Inr b"
  shows "distinct (printStatsCalls (trace (snd (check e cfg cwd paths True w))))
       \<and> set (printStatsCalls (trace (snd (check e cfg cwd paths True w)))) =
           {f. \<exists>r\<in>set (rules cfg). printStats r = Some f}"
proof (rule check_success [OF assms])
  let ?w' = "snd (check e cfg cwd paths True w)"
  fix wd w5
  assume tr: "trace w5 = map (\<lambda>r. Validate (rule_id r)) (rules cfg)"
    and "True \<Longrightarrow> \<exists>new. printStatsCalls (trace ?w') =
                  printStatsCalls (trace (snd (checkTargets e cfg wd cwd paths w5))) @ new
              \<and> distinct new \<and> set new = {f. \<exists>r\<in>set (rules cfg). printStats r = Some f}"
  then have calls: "\<exists>new. printStatsCalls (trace ?w') =
                  printStatsCalls (trace (snd (checkTargets e cfg wd cwd paths w5))) @ new
              \<and> distinct new \<and> set new = {f. \<exists>r\<in>set (rules cfg). printStats r = Some f}"
    by simp
  have "printStatsCalls (trace (snd (checkTargets e cfg wd cwd paths w5))) = printStatsCalls (trace w5)"
    by (rule extends_scope_printStatsCalls) (rule checkTargets_extends)
  then have "printStatsCalls (trace (snd (checkTargets e cfg wd cwd paths w5))) = []"
    by (simp add: tr)
  then show ?thesis
    using calls by auto
qed

theorem printStats_once_witness:
  "fst (check ex_env ex_config [''ws''] (Some [[''ws'', ''pkgX'', ''package.json'']]) True ex_world) = Inr True
   \<and> printStats ruleA = Some 7 \<and> printStats ruleB = Some 7
   \<and> distinct (printStatsCalls (trace (snd (check ex_env ex_config [''ws'']
         (Some [[''ws'', ''pkgX'', ''package.json'']]) True ex_world))))
   \<and> set (printStatsCalls (trace (snd (check ex_env ex_config [''ws'']
         (Some [[''ws'', ''pkgX'', ''package.json'']]) True ex_world)))) = {7}"
proof -
  have h: "fst (check ex_env ex_config [''ws''] (Some [[''ws'', ''pkgX'', ''package.json'']]) True ex_world) = Inr True"
    by (rule ex_pkgX_run)
  have s: "{f. \<exists>r\<in>set (rules ex_config). printStats r = Some f} = {7}"
    by (auto simp: ex_defs)
  have p: "printStats ruleA = Some 7" "printStats ruleB = Some 7"
    by (simp_all add: ex_defs)
  show ?thesis
    using printStats_once [OF h] h s p by simp
qed

end
